theory Spec2Isabelle
  imports Complex_Main "HOL-Library.Word"
begin

section \<open>Data model of the flood zone manager\<close>

text \<open>
  The development embeds \<^verbatim>\<open>static/js/flood-zone-manager.js\<close> (class
  \<^verbatim>\<open>FloodZoneManager\<close>).  A JavaScript number is modelled as a real number: the
  arithmetic is exact, and the non-finite values that JavaScript produces for a division by
  zero are outside the model, so every statement that goes through a division names the
  divisor that has to be non-zero.  A point \<^verbatim>\<open>[a, b]\<close> is a pair, a bounds array
  \<^verbatim>\<open>[[south, west], [north, east]]\<close> a pair of pairs, a \<^verbatim>\<open>Map\<close> a partial
  function, and a value that may be \<^verbatim>\<open>undefined\<close> or \<^verbatim>\<open>null\<close> an option.
\<close>

type_synonym point = "real \<times> real"

type_synonym bounds = "(real \<times> real) \<times> (real \<times> real)"

record zone =
  zone_id :: int
  name :: string
  image_path :: string
  bounds :: bounds
  opacity :: "real option"
  rotation :: "real option"
  perimeter :: "point list option"

text \<open>
  The object stored in \<^verbatim>\<open>contentBoundsCache\<close>, as \<^verbatim>\<open>detectImageContentBounds\<close>
  builds it.
\<close>

record contentBounds =
  minX :: real
  minY :: real
  maxX :: real
  maxY :: real
  imgWidth :: nat
  imgHeight :: nat

record baseSize =
  latSize :: real
  lngSize :: real

text \<open>
  The DOM element of an overlay: whether \<^verbatim>\<open>querySelector('img')\<close> finds an image
  in it, and the two style properties the manager writes.  \<open>Some d\<close> in \<open>transform\<close>
  stands for the style \<^verbatim>\<open>rotate(d deg)\<close>.
\<close>

record element =
  img :: bool
  transformOrigin :: string
  transform :: "real option"

text \<open>
  A map overlay as the manager uses it: \<^verbatim>\<open>getElement()\<close>, the displayed bounds that
  \<^verbatim>\<open>setBounds\<close> writes and \<^verbatim>\<open>getBounds()\<close> reads, whether the value that
  \<^verbatim>\<open>getBounds()\<close> returns can be destructured as a nested array (the map library
  decides that; where it cannot, the destructuring in \<^verbatim>\<open>isPointOverColoredPixels\<close>
  throws a TypeError), and whether the overlay is attached to a map
  (\<^verbatim>\<open>_map !== null\<close>).
\<close>

record overlay =
  getElement :: "element option"
  getBounds :: bounds
  boundsIterable :: bool
  onMap :: bool

text \<open>
  The fields of \<^verbatim>\<open>FloodZoneManager\<close> that the geometry code reads and writes.  An
  anchor marker is modelled by the position that \<^verbatim>\<open>getLatLng()\<close> returns, a
  border polygon by the ring of vertices it was built from.
  \<^verbatim>\<open>contentBoundsCache\<close> does not exist until the first content bounds are stored.
\<close>

record manager =
  zones :: "zone list"
  overlays :: "int \<rightharpoonup> overlay"
  anchors :: "int \<rightharpoonup> point"
  borders :: "int \<rightharpoonup> point list"
  baseZoneSizes :: "int \<rightharpoonup> baseSize"
  contentBoundsCache :: "(int \<rightharpoonup> contentBounds) option"
  currentScale :: real
  currentRotation :: real
  selectedZoneId :: "int option"

section \<open>Coordinate mapper\<close>

text \<open>
  \<^verbatim>\<open>pixelsToLatLng(pixels, imageWidth, imageHeight, bounds)\<close>, lines 738-754.  The
  definition gives the expressions of the code over the reals.  It says nothing on how the
  code rounds them, and it is not the code for an image of width or height zero, where the
  quotient of the code is NaN or an infinity; the statements on the perimeter evaluate it
  for small images and otherwise use of it only that it gives one vertex for each pixel of
  the path.  The conversion with the rounding of the code is \<open>pixelToLatLng64\<close> below.
\<close>

definition pixelToLatLng :: "real \<Rightarrow> real \<Rightarrow> bounds \<Rightarrow> point \<Rightarrow> point" where
  "pixelToLatLng imageWidth imageHeight bnds px =
     (case bnds of ((south, west), (north, east)) \<Rightarrow>
      case px of (x, y) \<Rightarrow>
        let latRange = north - south;
            lngRange = east - west;
            normX = x / imageWidth;
            normY = y / imageHeight;
            lng = west + (lngRange * normX);
            lat = north - (latRange * normY)
        in (lat, lng))"

definition pixelsToLatLng :: "point list \<Rightarrow> real \<Rightarrow> real \<Rightarrow> bounds \<Rightarrow> point list" where
  "pixelsToLatLng pixels imageWidth imageHeight bnds =
     map (pixelToLatLng imageWidth imageHeight bnds) pixels"

text \<open>
  The normalized position of a geographic point in a bounds rectangle, lines 905-911 of
  \<^verbatim>\<open>isPointOverColoredPixels\<close>: the pair \<^verbatim>\<open>(normX, normY)\<close>, again as
  expressions over the reals.  \<^verbatim>\<open>isPointOverColoredPixels\<close> below reads it only for
  bounds of non-zero width and height.
\<close>

definition normalizedPosition :: "bounds \<Rightarrow> point \<Rightarrow> point" where
  "normalizedPosition bnds pt =
     (case bnds of ((south, west), (north, east)) \<Rightarrow>
      case pt of (lat, lng) \<Rightarrow>
        let normX = (lng - west) / (east - west);
            normY = (north - lat) / (north - south)
        in (normX, normY))"

subsection \<open>The conversions in binary64 arithmetic\<close>

text \<open>
  A JavaScript number is a binary64 value, and an arithmetic operation returns the exact
  result rounded to the nearest binary64 value, a tie going to the value whose significand
  is even.  \<open>ulp64 x\<close> is the distance between neighbouring binary64 values at the exponent
  of \<open>x\<close> (53 significant bits), and \<open>round64 x\<close> is the multiple of it nearest to \<open>x\<close>.
  The exponent is not bounded here: a result of magnitude \<open>2^1024\<close> or more, which is an
  infinity in the code, and a result below \<open>2^-1022\<close>, which is subnormal and rounded more
  coarsely, are not modelled.
\<close>

definition roundHalfEven :: "real \<Rightarrow> int" where
  "roundHalfEven r =
     (let f = \<lfloor>r\<rfloor>; d = r - of_int f
      in if d < 1 / 2 then f else if 1 / 2 < d then f + 1 else if even f then f else f + 1)"

definition ulp64 :: "real \<Rightarrow> real" where
  "ulp64 x = 2 powr (of_int \<lfloor>log 2 \<bar>x\<bar>\<rfloor> - 52)"

definition round64 :: "real \<Rightarrow> real" where
  "round64 x = (if x = 0 then 0 else ulp64 x * of_int (roundHalfEven (x / ulp64 x)))"

text \<open>The operators \<^verbatim>\<open>+\<close>, \<^verbatim>\<open>-\<close>, \<^verbatim>\<open>*\<close> and \<^verbatim>\<open>/\<close> on numbers.\<close>

definition add64 :: "real \<Rightarrow> real \<Rightarrow> real" where
  "add64 a b = round64 (a + b)"

definition sub64 :: "real \<Rightarrow> real \<Rightarrow> real" where
  "sub64 a b = round64 (a - b)"

definition mul64 :: "real \<Rightarrow> real \<Rightarrow> real" where
  "mul64 a b = round64 (a * b)"

definition div64 :: "real \<Rightarrow> real \<Rightarrow> real" where
  "div64 a b = round64 (a / b)"

text \<open>
  \<^verbatim>\<open>pixelsToLatLng\<close> for one pixel, lines 738-754, with every operation rounded in
  the order of the code.  \<open>None\<close> stands for a result with a coordinate that is not a finite
  number: for an image of width or height zero the quotient of the code is NaN or an
  infinity, and \<open>div64\<close> is read for a divisor other than zero only.
\<close>

definition pixelToLatLng64 :: "real \<Rightarrow> real \<Rightarrow> bounds \<Rightarrow> point \<Rightarrow> point option" where
  "pixelToLatLng64 imageWidth imageHeight bnds px =
     (case bnds of ((south, west), (north, east)) \<Rightarrow>
      case px of (x, y) \<Rightarrow>
        if imageWidth = 0 \<or> imageHeight = 0 then None
        else
          let latRange = sub64 north south;
              lngRange = sub64 east west;
              normX = div64 x imageWidth;
              normY = div64 y imageHeight;
              lng = add64 west (mul64 lngRange normX);
              lat = sub64 north (mul64 latRange normY)
          in Some (lat, lng))"

text \<open>
  The normalized position of lines 905-911 with every operation rounded; \<open>None\<close> when a
  divisor is zero, where the quotient of the code is NaN or an infinity.  The code has no
  other conversion from geographic coordinates to image coordinates.
\<close>

definition normalizedPosition64 :: "bounds \<Rightarrow> point \<Rightarrow> point option" where
  "normalizedPosition64 bnds pt =
     (case bnds of ((south, west), (north, east)) \<Rightarrow>
      case pt of (lat, lng) \<Rightarrow>
        if sub64 east west = 0 \<or> sub64 north south = 0 then None
        else
          let normX = div64 (sub64 lng west) (sub64 east west);
              normY = div64 (sub64 north lat) (sub64 north south)
          in Some (normX, normY))"

section \<open>Point queries\<close>

text \<open>\<^verbatim>\<open>isPointInBounds(point, bounds)\<close>, lines 879-883.\<close>

definition isPointInBounds :: "point \<Rightarrow> bounds \<Rightarrow> bool" where
  "isPointInBounds pt bnds =
     (case pt of (lat, lng) \<Rightarrow>
      case bnds of ((south, west), (north, east)) \<Rightarrow>
        lat \<ge> south \<and> lat \<le> north \<and> lng \<ge> west \<and> lng \<le> east)"

text \<open>
  \<^verbatim>\<open>this.contentBoundsCache?.get(zone.id)\<close>: undefined when the cache does not exist
  or holds nothing for the zone.
\<close>

definition cachedContentBounds :: "manager \<Rightarrow> int \<Rightarrow> contentBounds option" where
  "cachedContentBounds m zid =
     (case contentBoundsCache m of None \<Rightarrow> None | Some cache \<Rightarrow> cache zid)"

text \<open>
  \<^verbatim>\<open>isPointOverColoredPixels(point, overlay, zone)\<close>, lines 892-920.  The two early
  \<^verbatim>\<open>return false\<close> come before the cache is read.  The \<^verbatim>\<open>catch\<close> branch is
  reached when the bounds value cannot be destructured.  With displayed bounds of zero width
  or height the quotient is NaN or an infinity in JavaScript, and no such value passes both
  comparisons of its axis, so the result is false there.
\<close>

definition isPointOverColoredPixels :: "manager \<Rightarrow> point \<Rightarrow> overlay \<Rightarrow> zone \<Rightarrow> bool" where
  "isPointOverColoredPixels m pt ov z =
     (case getElement ov of
        None \<Rightarrow> False
      | Some overlayElement \<Rightarrow>
          if \<not> img overlayElement then False
          else (case cachedContentBounds m (zone_id z) of
                  None \<Rightarrow> True
                | Some cb \<Rightarrow>
                    if \<not> boundsIterable ov then True
                    else (case getBounds ov of ((south, west), (north, east)) \<Rightarrow>
                            if east - west = 0 \<or> north - south = 0 then False
                            else (case normalizedPosition (getBounds ov) pt of (normX, normY) \<Rightarrow>
                                    normX \<ge> minX cb \<and> normX \<le> maxX cb \<and>
                                    normY \<ge> minY cb \<and> normY \<le> maxY cb))))"

text \<open>
  The loop of \<^verbatim>\<open>getZoneAtPoint\<close>, lines 846-868, over the zones still to check.
\<close>

fun checkZones :: "manager \<Rightarrow> point \<Rightarrow> bool \<Rightarrow> zone list \<Rightarrow> zone option" where
  "checkZones m pt checkPixels [] = None"
| "checkZones m pt checkPixels (z # zonesToCheck) =
     (if isPointInBounds pt (bounds z) then
        (if \<not> checkPixels then Some z
         else (case overlays m (zone_id z) of
                 Some ov \<Rightarrow>
                   if isPointOverColoredPixels m pt ov z then Some z
                   else checkZones m pt checkPixels zonesToCheck
               | None \<Rightarrow> Some z))
      else checkZones m pt checkPixels zonesToCheck)"

text \<open>\<^verbatim>\<open>getZoneAtPoint(lat, lng, checkPixels)\<close>, lines 840-871.\<close>

definition getZoneAtPoint :: "manager \<Rightarrow> real \<Rightarrow> real \<Rightarrow> bool \<Rightarrow> zone option" where
  "getZoneAtPoint m lat lng checkPixels =
     checkZones m (lat, lng) checkPixels (rev (zones m))"

section \<open>Transform engine\<close>

text \<open>\<^verbatim>\<open>applyRotationToZone(zoneId, rotationDegrees)\<close>, lines 1601-1615.\<close>

definition applyRotationToZone :: "manager \<Rightarrow> int \<Rightarrow> real \<Rightarrow> manager" where
  "applyRotationToZone m zoneId rotationDegrees =
     (case overlays m zoneId of
        None \<Rightarrow> m
      | Some ov \<Rightarrow>
          (case getElement ov of
             None \<Rightarrow> m
           | Some overlayElement \<Rightarrow>
               m\<lparr>overlays := (overlays m)(zoneId \<mapsto>
                    ov\<lparr>getElement := Some (overlayElement\<lparr>transformOrigin := ''50% 50%'',
                                                            transform := Some rotationDegrees\<rparr>)\<rparr>)\<rparr>))"

text \<open>\<^verbatim>\<open>applyScaleToZone(zoneId, scaleFactor)\<close>, lines 1620-1646.\<close>

definition applyScaleToZone :: "manager \<Rightarrow> int \<Rightarrow> real \<Rightarrow> manager" where
  "applyScaleToZone m zoneId scaleFactor =
     (case overlays m zoneId of
        None \<Rightarrow> m
      | Some ov \<Rightarrow>
          (case anchors m zoneId of
             None \<Rightarrow> m
           | Some center \<Rightarrow>
               (case baseZoneSizes m zoneId of
                  None \<Rightarrow> m
                | Some bs \<Rightarrow>
                    let scaledLatSize = latSize bs * scaleFactor;
                        scaledLngSize = lngSize bs * scaleFactor;
                        newSouth = fst center - scaledLatSize / 2;
                        newNorth = fst center + scaledLatSize / 2;
                        newWest = snd center - scaledLngSize / 2;
                        newEast = snd center + scaledLngSize / 2;
                        newBounds = ((newSouth, newWest), (newNorth, newEast))
                    in m\<lparr>overlays := (overlays m)(zoneId \<mapsto> ov\<lparr>getBounds := newBounds\<rparr>)\<rparr>)))"

text \<open>\<^verbatim>\<open>applyScaleToAllZones(scaleFactor)\<close>, lines 1560-1564.\<close>

definition applyScaleToAllZones :: "manager \<Rightarrow> real \<Rightarrow> manager" where
  "applyScaleToAllZones m scaleFactor =
     fold (\<lambda>z m'. applyScaleToZone m' (zone_id z) scaleFactor) (zones m) m"

text \<open>
  The last loop of \<^verbatim>\<open>applyRotationToAllZones\<close>, lines 1585-1595: an anchor that
  moved by more than 0.0001 is put back.
\<close>

fun restoreAnchors :: "(int \<times> point) list \<Rightarrow> manager \<Rightarrow> manager" where
  "restoreAnchors [] m = m"
| "restoreAnchors ((zoneId, position) # rest) m =
     restoreAnchors rest
       (case anchors m zoneId of
          None \<Rightarrow> m
        | Some currentPos \<Rightarrow>
            if \<bar>fst currentPos - fst position\<bar> > 0.0001 \<or> \<bar>snd currentPos - snd position\<bar> > 0.0001
            then m\<lparr>anchors := (anchors m)(zoneId \<mapsto> position)\<rparr>
            else m)"

text \<open>
  \<^verbatim>\<open>applyRotationToAllZones(rotationDegrees)\<close>, lines 1569-1596.  The local map
  \<^verbatim>\<open>anchorPositions\<close> is the list of its entries; a zone id met twice holds the same
  position both times.
\<close>

definition applyRotationToAllZones :: "manager \<Rightarrow> real \<Rightarrow> manager" where
  "applyRotationToAllZones m rotationDegrees =
     (let anchorPositions =
            concat (map (\<lambda>z. case anchors m (zone_id z) of
                                 None \<Rightarrow> []
                               | Some position \<Rightarrow> [(zone_id z, position)]) (zones m));
          rotated = fold (\<lambda>z m'. applyRotationToZone m' (zone_id z) rotationDegrees) (zones m) m
      in restoreAnchors anchorPositions rotated)"

text \<open>
  A preview operation, as the sliders of the control window issue them, and a sequence of
  them with no save in between.
\<close>

datatype preview =
  ScaleZone int real
| RotateZone int real
| ScaleAllZones real
| RotateAllZones real

fun applyPreview :: "preview \<Rightarrow> manager \<Rightarrow> manager" where
  "applyPreview (ScaleZone zoneId scaleFactor) m = applyScaleToZone m zoneId scaleFactor"
| "applyPreview (RotateZone zoneId rotationDegrees) m = applyRotationToZone m zoneId rotationDegrees"
| "applyPreview (ScaleAllZones scaleFactor) m = applyScaleToAllZones m scaleFactor"
| "applyPreview (RotateAllZones rotationDegrees) m = applyRotationToAllZones m rotationDegrees"

definition applyPreviews :: "preview list \<Rightarrow> manager \<Rightarrow> manager" where
  "applyPreviews ops m = fold applyPreview ops m"

subsection \<open>Saving a transform\<close>

text \<open>
  What the page and the backend answer while a save runs: whether the save button is in the
  document, whether the map is initialised, the zone ids whose checkbox is checked, whether
  the PUT and the GET request report success, and what the map library gives a newly added
  overlay.
\<close>

record env =
  saveBtn :: bool
  mapReady :: bool
  checkedZoneIds :: "int list"
  updateSucceeds :: bool
  loadSucceeds :: bool
  freshElement :: "element option"
  freshBoundsIterable :: bool

text \<open>The manager together with the zone records that the backend holds.\<close>

record session =
  fzm :: manager
  stored :: "zone list"

text \<open>Why a save stopped, as the console and the alert report it.\<close>

datatype failure =
  ZoneNotFound
| SaveButtonNotFound
| AnchorNotFound
| BaseSizeNotFound
| UpdateFailed

text \<open>The JavaScript operator \<^verbatim>\<open>||\<close> on a number that may be undefined.\<close>

definition orElse :: "real option \<Rightarrow> real \<Rightarrow> real" where
  "orElse v d = (case v of None \<Rightarrow> d | Some x \<Rightarrow> if x = 0 then d else x)"

fun findIndex :: "('a \<Rightarrow> bool) \<Rightarrow> 'a list \<Rightarrow> nat option" where
  "findIndex P [] = None"
| "findIndex P (x # xs) =
     (if P x then Some 0 else map_option Suc (findIndex P xs))"

text \<open>
  Modelled from the spec: the backend route behind \<^verbatim>\<open>PUT /api/flood-zones/update/id\<close>
  is not part of the sources.  The spec describes it as the operation that persists new
  bounds and rotation for a zone record; here the record with the given id takes the
  submitted fields and keeps its id and its perimeter.
\<close>

definition backendUpdate :: "zone list \<Rightarrow> int \<Rightarrow> zone \<Rightarrow> zone list" where
  "backendUpdate zs zoneId zoneData =
     map (\<lambda>z. if zone_id z = zoneId
               then z\<lparr>name := name zoneData, image_path := image_path zoneData,
                      bounds := bounds zoneData, opacity := opacity zoneData,
                      rotation := rotation zoneData\<rparr>
               else z) zs"

text \<open>
  \<^verbatim>\<open>updateZone(zoneId, zoneData)\<close>, lines 1868-1894.  The local record becomes
  \<^verbatim>\<open>{ ...zoneData, id: zoneId }\<close>, which has no perimeter.
\<close>

definition updateZone :: "env \<Rightarrow> session \<Rightarrow> int \<Rightarrow> zone \<Rightarrow> failure + session" where
  "updateZone e s zoneId zoneData =
     (if updateSucceeds e then
        Inr (s\<lparr>stored := backendUpdate (stored s) zoneId zoneData,
               fzm := (fzm s)\<lparr>zones :=
                 (case findIndex (\<lambda>z. zone_id z = zoneId) (zones (fzm s)) of
                    None \<Rightarrow> zones (fzm s)
                  | Some zoneIndex \<Rightarrow>
                      (zones (fzm s))[zoneIndex := zoneData\<lparr>zone_id := zoneId\<rparr>])\<rparr>\<rparr>)
      else Inl UpdateFailed)"

text \<open>
  \<^verbatim>\<open>addZoneOverlay(zone)\<close>, lines 1118-1374, without the work it defers to timers and
  to the load event of the image.
\<close>

definition addZoneOverlay :: "env \<Rightarrow> manager \<Rightarrow> zone \<Rightarrow> manager" where
  "addZoneOverlay e m z =
     (if \<not> mapReady e then m
      else (case bounds z of ((south, west), (north, east)) \<Rightarrow>
        let baseLatSize = north - south;
            baseLngSize = east - west;
            sizes = (case baseZoneSizes m (zone_id z) of
                       None \<Rightarrow> (baseZoneSizes m)(zone_id z \<mapsto>
                                  \<lparr>latSize = baseLatSize, lngSize = baseLngSize\<rparr>)
                     | Some _ \<Rightarrow> baseZoneSizes m);
            imageOverlay = \<lparr>getElement = freshElement e, getBounds = bounds z,
                            boundsIterable = freshBoundsIterable e, onMap = True\<rparr>
        in m\<lparr>baseZoneSizes := sizes, overlays := (overlays m)(zone_id z \<mapsto> imageOverlay)\<rparr>))"

text \<open>
  \<^verbatim>\<open>displayZones()\<close>, lines 1006-1113: the two loops over the zones; the fitting of
  the map view and the popup refresh do not touch the manager.
\<close>

definition displayZones :: "env \<Rightarrow> manager \<Rightarrow> manager" where
  "displayZones e m =
     (if \<not> mapReady e then m
      else
        let removed = fold (\<lambda>z m'.
              if zone_id z \<notin> set (checkedZoneIds e) then
                (case overlays m' (zone_id z) of
                   None \<Rightarrow> m'
                 | Some ov \<Rightarrow> m'\<lparr>overlays := (overlays m')(zone_id z \<mapsto> ov\<lparr>onMap := False\<rparr>)\<rparr>)
              else m') (zones m) m
        in fold (\<lambda>z m'.
              if zone_id z \<in> set (checkedZoneIds e) then
                (case overlays m' (zone_id z) of
                   None \<Rightarrow> addZoneOverlay e m' z
                 | Some ov \<Rightarrow> if \<not> onMap ov then addZoneOverlay e m' z else m')
              else m') (zones m) removed)"

text \<open>
  \<^verbatim>\<open>loadZones()\<close>, lines 351-371.  A request that fails is logged and changes
  nothing.
\<close>

definition loadZones :: "env \<Rightarrow> session \<Rightarrow> session" where
  "loadZones e s =
     (if loadSucceeds e
      then s\<lparr>fzm := displayZones e ((fzm s)\<lparr>zones := stored s\<rparr>)\<rparr>
      else s)"

text \<open>
  \<^verbatim>\<open>saveZoneTransform(zoneId)\<close>, lines 1651-1739.  Every exception of the
  \<^verbatim>\<open>try\<close> block is caught and reported, and the state stays as it was.
\<close>

definition saveZoneTransform :: "env \<Rightarrow> session \<Rightarrow> int \<Rightarrow> failure option \<times> session" where
  "saveZoneTransform e s zoneId =
     (case List.find (\<lambda>z. zone_id z = zoneId) (zones (fzm s)) of
        None \<Rightarrow> (Some ZoneNotFound, s)
      | Some z \<Rightarrow>
          let scaleFactor = currentScale (fzm s) / 100 in
          if \<not> saveBtn e then (Some SaveButtonNotFound, s)
          else (case anchors (fzm s) zoneId of
             None \<Rightarrow> (Some AnchorNotFound, s)
           | Some center \<Rightarrow>
               (case baseZoneSizes (fzm s) zoneId of
                  None \<Rightarrow> (Some BaseSizeNotFound, s)
                | Some bs \<Rightarrow>
                    let scaledLatSize = latSize bs * scaleFactor;
                        scaledLngSize = lngSize bs * scaleFactor;
                        newSouth = fst center - scaledLatSize / 2;
                        newNorth = fst center + scaledLatSize / 2;
                        newWest = snd center - scaledLngSize / 2;
                        newEast = snd center + scaledLngSize / 2;
                        newBounds = ((newSouth, newWest), (newNorth, newEast));
                        updatedZoneData = \<lparr>zone_id = zoneId, name = name z,
                          image_path = image_path z, bounds = newBounds,
                          opacity = Some (orElse (opacity z) 0.6),
                          rotation = Some (currentRotation (fzm s)), perimeter = None\<rparr>
                    in (case updateZone e s zoneId updatedZoneData of
                          Inl err \<Rightarrow> (Some err, s)
                        | Inr s1 \<Rightarrow>
                            let s2 = s1\<lparr>fzm := (fzm s1)\<lparr>baseZoneSizes :=
                                       (baseZoneSizes (fzm s1))(zoneId \<mapsto>
                                          \<lparr>latSize = scaledLatSize, lngSize = scaledLngSize\<rparr>)\<rparr>\<rparr>;
                                s3 = loadZones e s2
                            in (None, s3\<lparr>fzm := (fzm s3)\<lparr>currentScale := 100,
                                                         selectedZoneId := Some zoneId\<rparr>\<rparr>)))))"

section \<open>Raster sampling and content bounds\<close>

text \<open>
  The pixel buffer that \<^verbatim>\<open>getImageData\<close> returns: four bytes (red, green, blue,
  alpha) for each pixel, row by row.
\<close>

record imageData =
  width :: nat
  height :: nat
  data :: "8 word list"

text \<open>
  \<^verbatim>\<open>data[index + 3]\<close> with \<^verbatim>\<open>index = (y * width + x) * 4\<close>.  A read beyond the
  buffer is \<^verbatim>\<open>undefined\<close>, which no comparison with a number accepts.
\<close>

definition alphaAt :: "imageData \<Rightarrow> nat \<Rightarrow> nat \<Rightarrow> 8 word option" where
  "alphaAt im x y =
     (let index = (y * width im + x) * 4
      in if index + 3 < length (data im) then Some (data im ! (index + 3)) else None)"

text \<open>The test \<^verbatim>\<open>alpha >= 10\<close> of lines 400 and 569.\<close>

definition isColored :: "imageData \<Rightarrow> nat \<Rightarrow> nat \<Rightarrow> bool" where
  "isColored im y x = (case alphaAt im x y of None \<Rightarrow> False | Some alpha \<Rightarrow> alpha \<ge> 10)"

text \<open>
  The body of the scan of \<^verbatim>\<open>detectImageContentBounds\<close>, lines 397-406, on the
  variables \<^verbatim>\<open>(minX, minY, maxX, maxY, foundColoredPixel)\<close>.
\<close>

definition scanPixel ::
  "imageData \<Rightarrow> nat \<Rightarrow> nat \<Rightarrow> nat \<times> nat \<times> nat \<times> nat \<times> bool \<Rightarrow> nat \<times> nat \<times> nat \<times> nat \<times> bool" where
  "scanPixel im y x st =
     (case st of (mnX, mnY, mxX, mxY, foundColoredPixel) \<Rightarrow>
        if isColored im y x
        then (if x < mnX then x else mnX, if y < mnY then y else mnY,
              if x > mxX then x else mxX, if y > mxY then y else mxY, True)
        else st)"

text \<open>The two nested loops, lines 388-408.\<close>

definition scanImage :: "imageData \<Rightarrow> nat \<times> nat \<times> nat \<times> nat \<times> bool" where
  "scanImage im =
     fold (\<lambda>y st. fold (\<lambda>x st'. scanPixel im y x st') [0..<width im] st)
       [0..<height im] (width im, height im, 0, 0, False)"

text \<open>
  \<^verbatim>\<open>detectImageContentBounds(imgElement)\<close>, lines 377-426.  The argument is what the
  canvas gives for the image: \<open>None\<close> when drawing or reading the canvas throws, which the
  \<^verbatim>\<open>catch\<close> branch turns into \<^verbatim>\<open>null\<close>.
\<close>

definition detectImageContentBounds :: "imageData option \<Rightarrow> contentBounds option" where
  "detectImageContentBounds canvas =
     (case canvas of
        None \<Rightarrow> None
      | Some im \<Rightarrow>
          (case scanImage im of (mnX, mnY, mxX, mxY, foundColoredPixel) \<Rightarrow>
             if foundColoredPixel
             then Some \<lparr>minX = real mnX / real (width im),
                        minY = real mnY / real (height im),
                        maxX = (real mxX + 1) / real (width im),
                        maxY = (real mxY + 1) / real (height im),
                        imgWidth = width im,
                        imgHeight = height im\<rparr>
             else None))"


text \<open>
  The rasters of the content bounds scenario: 100 by 100 pixels, transparent but for an
  opaque square whose first row and column are 25 and whose last row and column are \<open>hi\<close>.
\<close>

definition squareAlpha :: "nat \<Rightarrow> nat \<Rightarrow> nat \<Rightarrow> 8 word" where
  "squareAlpha hi x y = (if 25 \<le> x \<and> x \<le> hi \<and> 25 \<le> y \<and> y \<le> hi then 255 else 0)"

definition squareRaster :: "nat \<Rightarrow> imageData" where
  "squareRaster hi =
     \<lparr>width = 100, height = 100,
      data = concat (map (\<lambda>y. concat (map (\<lambda>x. [0, 0, 0, squareAlpha hi x y]) [0..<100]))
                      [0..<100])\<rparr>"

section \<open>Perimeter extractor\<close>

text \<open>
  The edge test of lines 577-594 for the pixel \<open>(x, y)\<close> of the scan.  The neighbours are
  read only for a pixel that is not on the border of the image, so they are inside it.
\<close>

definition isEdgePixel :: "imageData \<Rightarrow> nat \<Rightarrow> nat \<Rightarrow> bool" where
  "isEdgePixel im y x =
     (if \<not> isColored im y x then False
      else if x = 0 \<or> x = width im - 1 \<or> y = 0 \<or> y = height im - 1 then True
      else list_ex (\<lambda>(dx, dy). \<not> isColored im (nat (int y + dy)) (nat (int x + dx)))
             [(0, -1), (1, 0), (0, 1), (-1, 0)])"

text \<open>The list \<^verbatim>\<open>edgePixels\<close>, lines 574-596, in scan order.\<close>

definition edgePixels :: "imageData \<Rightarrow> point list" where
  "edgePixels im =
     concat (map (\<lambda>y. concat (map (\<lambda>x. if isEdgePixel im y x then [(real x, real y)] else [])
                                  [0..<width im]))
               [0..<height im])"

text \<open>\<^verbatim>\<open>Math.sqrt((x - sx) ** 2 + (y - sy) ** 2)\<close>, lines 611 and 638.\<close>

definition pointDistance :: "point \<Rightarrow> point \<Rightarrow> real" where
  "pointDistance p q = sqrt ((fst p - fst q)\<^sup>2 + (snd p - snd q)\<^sup>2)"

text \<open>
  The thinning loop of lines 602-621: a point is kept unless it is closer than the threshold
  to a point kept before.
\<close>

fun thinPoints :: "real \<Rightarrow> point list \<Rightarrow> point list \<Rightarrow> point list" where
  "thinPoints threshold [] simplified = simplified"
| "thinPoints threshold (p # rest) simplified =
     thinPoints threshold rest
       (if list_ex (\<lambda>s. pointDistance p s < threshold) simplified
        then simplified else simplified @ [p])"

text \<open>
  The search of lines 633-643 for the nearest remaining point.  \<open>None\<close> in
  \<open>nearestDist\<close> stands for \<^verbatim>\<open>Infinity\<close>, which every distance is below.
\<close>

fun findNearest :: "point \<Rightarrow> point list \<Rightarrow> nat \<Rightarrow> nat \<times> real option \<Rightarrow> nat \<times> real option" where
  "findNearest current [] i acc = acc"
| "findNearest current (p # rest) i (nearestIdx, nearestDist) =
     (let dist = pointDistance current p
      in findNearest current rest (Suc i)
           (if (case nearestDist of None \<Rightarrow> True | Some d \<Rightarrow> dist < d)
            then (i, Some dist) else (nearestIdx, nearestDist)))"

text \<open>
  The path loop of lines 632-655 on \<^verbatim>\<open>(current, remaining, path)\<close>.  Were the index
  of the nearest point outside \<^verbatim>\<open>remaining\<close>, \<^verbatim>\<open>splice\<close> would remove nothing,
  \<^verbatim>\<open>current\<close> would be undefined and the next distance would throw; that is the result
  \<open>None\<close>.
\<close>

function stitchPath :: "point \<Rightarrow> point list \<Rightarrow> point list \<Rightarrow> point list option" where
  "stitchPath current remaining path =
     (if remaining = [] then Some path
      else
        (let nearest = findNearest current remaining 0 (0, None);
             nearestIdx = fst nearest;
             nearestDist = snd nearest
         in if (case nearestDist of None \<Rightarrow> True | Some d \<Rightarrow> d > 50) \<and> length path > 10
            then stitchPath (hd remaining) (tl remaining) (path @ [hd remaining])
            else if nearestIdx < length remaining
            then stitchPath (remaining ! nearestIdx)
                   (take nearestIdx remaining @ drop (Suc nearestIdx) remaining)
                   (path @ [remaining ! nearestIdx])
            else None))"
  by pat_completeness auto
termination
  by (relation "measure (\<lambda>(current, remaining, path). length remaining)") auto

declare stitchPath.simps [simp del]

text \<open>\<^verbatim>\<open>pointToLineDistance(point, lineStart, lineEnd)\<close>, lines 699-732.\<close>

definition pointToLineDistance :: "point \<Rightarrow> point \<Rightarrow> point \<Rightarrow> real" where
  "pointToLineDistance pt lineStart lineEnd =
     (case pt of (px, py) \<Rightarrow>
      case lineStart of (x1, y1) \<Rightarrow>
      case lineEnd of (x2, y2) \<Rightarrow>
        let A = px - x1;
            B = py - y1;
            C = x2 - x1;
            D = y2 - y1;
            dot = A * C + B * D;
            lenSq = C * C + D * D;
            param = (if lenSq \<noteq> 0 then dot / lenSq else - 1);
            xx = (if param < 0 then x1 else if param > 1 then x2 else x1 + param * C);
            yy = (if param < 0 then y1 else if param > 1 then y2 else y1 + param * D);
            dx = px - xx;
            dy = py - yy
        in sqrt (dx * dx + dy * dy))"

text \<open>
  The loop of lines 679-685 of \<^verbatim>\<open>douglasPeucker\<close> over the points between the first
  and the last, on \<^verbatim>\<open>(maxDist, maxIdx)\<close>.
\<close>

fun maxDeviation :: "point list \<Rightarrow> point \<Rightarrow> point \<Rightarrow> nat \<Rightarrow> real \<times> nat \<Rightarrow> real \<times> nat" where
  "maxDeviation [] lineStart lineEnd i acc = acc"
| "maxDeviation (p # rest) lineStart lineEnd i (maxDist, maxIdx) =
     (let dist = pointToLineDistance p lineStart lineEnd
      in maxDeviation rest lineStart lineEnd (Suc i)
           (if dist > maxDist then (dist, i) else (maxDist, maxIdx)))"

text \<open>
  \<^verbatim>\<open>douglasPeucker(points, tolerance)\<close>, lines 672-694.  The recursion does not end
  for every argument (with a negative tolerance the second call can be on the same points),
  so the result is an option and \<open>None\<close> stands for a call that does not return a path.
\<close>

partial_function (option) douglasPeucker :: "point list \<Rightarrow> real \<Rightarrow> point list option" where
  "douglasPeucker points tolerance =
     (if length points \<le> 2 then Some points
      else
        (let end = length points - 1;
             deviation = maxDeviation (take (end - 1) (drop 1 points))
                           (points ! 0) (points ! end) 1 (0, 0);
             maxDist = fst deviation;
             maxIdx = snd deviation
         in if maxDist > tolerance
            then Option.bind (douglasPeucker (take (maxIdx + 1) points) tolerance) (\<lambda>left.
                 Option.bind (douglasPeucker (drop maxIdx points) tolerance) (\<lambda>right.
                   Some (butlast left @ right)))
            else Some [points ! 0, points ! end]))"

text \<open>
  \<^verbatim>\<open>detectColorPerimeter(imgElement)\<close> up to the stitched path, lines 549-655.  As
  for the content bounds, \<open>None\<close> as argument is a canvas that cannot be read.
\<close>

definition stitchedPath :: "imageData option \<Rightarrow> point list option" where
  "stitchedPath canvas =
     (case canvas of
        None \<Rightarrow> None
      | Some im \<Rightarrow>
          if edgePixels im = [] then None
          else
            (let simplified = thinPoints 2 (edgePixels im) []
             in if simplified = [] then None
                else stitchPath (hd simplified) (tl simplified) [hd simplified]))"

text \<open>
  \<^verbatim>\<open>detectColorPerimeter(imgElement)\<close>, lines 549-667, with its last step of lines
  657-662.
\<close>

definition detectColorPerimeter :: "imageData option \<Rightarrow> point list option" where
  "detectColorPerimeter canvas =
     (case stitchedPath canvas of
        None \<Rightarrow> None
      | Some path \<Rightarrow>
          if length path > 500 then douglasPeucker path 1 else Some path)"

text \<open>
  \<^verbatim>\<open>drawZoneBorder(zone, options)\<close>, lines 762-803: the ring handed to the polygon,
  and the manager with the border stored.
\<close>

definition drawZoneBorder :: "env \<Rightarrow> manager \<Rightarrow> zone \<Rightarrow> point list option \<times> manager" where
  "drawZoneBorder e m z =
     (if \<not> mapReady e then (None, m)
      else (case perimeter z of
              None \<Rightarrow> (None, m)
            | Some perim \<Rightarrow>
                if length perim > 0 then
                  (let latlngs =
                         (if length perim > 0 \<and>
                             (fst (perim ! 0) \<noteq> fst (perim ! (length perim - 1)) \<or>
                              snd (perim ! 0) \<noteq> snd (perim ! (length perim - 1)))
                          then perim @ [perim ! 0] else perim)
                   in (Some latlngs, m\<lparr>borders := (borders m)(zone_id z \<mapsto> latlngs)\<rparr>))
                else (None, m)))"

section \<open>Notions used in the statements and proofs\<close>

text \<open>
  Two managers that differ in their overlays at most: what a preview may change.
\<close>

definition onlyOverlays :: "manager \<Rightarrow> manager \<Rightarrow> bool" where
  "onlyOverlays m m' = (m' = m\<lparr>overlays := overlays m'\<rparr>)"

text \<open>
  What redisplaying the zones keeps for the zone \<open>i\<close>: the zone list, the anchors, the
  scale, a base size that is cached and an overlay that exists.
\<close>

definition grows :: "int \<Rightarrow> manager \<Rightarrow> manager \<Rightarrow> bool" where
  "grows i m m' =
     (zones m' = zones m \<and> anchors m' = anchors m \<and> currentScale m' = currentScale m \<and>
      (case baseZoneSizes m i of None \<Rightarrow> True | Some b \<Rightarrow> baseZoneSizes m' i = Some b) \<and>
      (overlays m i = None \<or> overlays m' i \<noteq> None))"

text \<open>The pixels of an image in the order of the scan, and the colored ones among them.\<close>

definition scanOrder :: "imageData \<Rightarrow> (nat \<times> nat) list" where
  "scanOrder im = concat (map (\<lambda>y. map (\<lambda>x. (x, y)) [0..<width im]) [0..<height im])"

definition coloredPixels :: "imageData \<Rightarrow> (nat \<times> nat) set" where
  "coloredPixels im = {(x, y). x < width im \<and> y < height im \<and> isColored im y x}"

text \<open>
  Plane geometry for the statements about the simplification: the cross product and the dot
  product of \<open>b - a\<close> with \<open>p - a\<close>, and the squared length of \<open>b - a\<close>.  The points of a
  path are collinear when every cross product of three of them is zero; \<open>p\<close> is on the segment
  from \<open>a\<close> to \<open>b\<close> when it is on their line between the two (and is \<open>a\<close> when \<open>a = b\<close>).
\<close>

definition crossProduct :: "point \<Rightarrow> point \<Rightarrow> point \<Rightarrow> real" where
  "crossProduct a b p = (fst b - fst a) * (snd p - snd a) - (snd b - snd a) * (fst p - fst a)"

definition dotProduct :: "point \<Rightarrow> point \<Rightarrow> point \<Rightarrow> real" where
  "dotProduct a b p = (fst p - fst a) * (fst b - fst a) + (snd p - snd a) * (snd b - snd a)"

definition squaredLength :: "point \<Rightarrow> point \<Rightarrow> real" where
  "squaredLength a b = (fst b - fst a) * (fst b - fst a) + (snd b - snd a) * (snd b - snd a)"

definition collinearPath :: "point list \<Rightarrow> bool" where
  "collinearPath pts =
     list_all (\<lambda>a. list_all (\<lambda>b. list_all (\<lambda>p. crossProduct a b p = 0) pts) pts) pts"

definition onSegment :: "point \<Rightarrow> point \<Rightarrow> point \<Rightarrow> bool" where
  "onSegment a b p =
     (if a = b then p = a
      else crossProduct a b p = 0 \<and> 0 \<le> dotProduct a b p \<and> dotProduct a b p \<le> squaredLength a b)"

text \<open>
  A zone is active when it is displayed: it has an overlay and the overlay is on the map,
  the test \<^verbatim>\<open>!overlay || overlay._map === null\<close> of \<^verbatim>\<open>displayZones\<close>, line 1038,
  negated.  The topmost active zone at a point is the statement of the specification for the
  coarse query: the active zones taken in reverse order, the first of them whose bounds
  contain the point.
\<close>

definition isActive :: "manager \<Rightarrow> zone \<Rightarrow> bool" where
  "isActive m z = (case overlays m (zone_id z) of None \<Rightarrow> False | Some ov \<Rightarrow> onMap ov)"

definition topmostActiveZone :: "manager \<Rightarrow> real \<Rightarrow> real \<Rightarrow> zone option" where
  "topmostActiveZone m lat lng =
     List.find (\<lambda>z. isPointInBounds (lat, lng) (bounds z)) (rev (filter (isActive m) (zones m)))"

section \<open>Concrete states and rasters\<close>

text \<open>
  The two overlapping zones of the point query scenario, B added after A, in a manager where
  B has an overlay, an anchor at its centre and a cached base size, and the scale slider is
  at 50.
\<close>

definition zoneA :: zone where
  "zoneA = \<lparr>zone_id = 1, name = ''pink'', image_path = ''mapzone/pink.png'',
            bounds = ((0, 0), (10, 10)), opacity = Some 0.6, rotation = Some 0, perimeter = None\<rparr>"

definition zoneB :: zone where
  "zoneB = \<lparr>zone_id = 2, name = ''yellow'', image_path = ''mapzone/yellow.png'',
            bounds = ((5, 5), (15, 15)), opacity = Some 0.6, rotation = Some 0, perimeter = None\<rparr>"

definition overlayB :: overlay where
  "overlayB = \<lparr>getElement = Some \<lparr>img = True, transformOrigin = ''50% 50%'', transform = Some 0\<rparr>,
               getBounds = ((5, 5), (15, 15)), boundsIterable = True, onMap = True\<rparr>"

definition demoManager :: manager where
  "demoManager = \<lparr>zones = [zoneA, zoneB], overlays = [2 \<mapsto> overlayB], anchors = [2 \<mapsto> (10, 10)],
                  borders = Map.empty, baseZoneSizes = [2 \<mapsto> \<lparr>latSize = 10, lngSize = 10\<rparr>],
                  contentBoundsCache = None, currentScale = 50, currentRotation = 0,
                  selectedZoneId = Some 2\<rparr>"

definition demoEnv :: env where
  "demoEnv = \<lparr>saveBtn = True, mapReady = True, checkedZoneIds = [1, 2], updateSucceeds = True,
              loadSucceeds = True,
              freshElement = Some \<lparr>img = True, transformOrigin = [], transform = None\<rparr>,
              freshBoundsIterable = True\<rparr>"

definition demoSession :: session where
  "demoSession = \<lparr>fzm = demoManager, stored = [zoneA, zoneB]\<rparr>"

text \<open>A raster of one opaque pixel, and one of two by two pixels whose top right pixel is opaque.\<close>

definition onePixel :: imageData where
  "onePixel = \<lparr>width = 1, height = 1, data = [0, 0, 0, 255]\<rparr>"

definition cornerRaster :: imageData where
  "cornerRaster = \<lparr>width = 2, height = 2,
                   data = [0, 0, 0, 0,  255, 0, 0, 255,  0, 0, 0, 0,  0, 0, 0, 9]\<rparr>"

text \<open>
  A zone whose perimeter is the geographic image of the one-pixel path, and the manager of
  the scenario with an overlay for zone B that has no DOM element yet.
\<close>

definition onePixelZone :: zone where
  "onePixelZone = \<lparr>zone_id = 3, name = ''green'', image_path = ''mapzone/green.png'',
                   bounds = ((0, 0), (1, 1)), opacity = Some 0.6, rotation = Some 0,
                   perimeter = Some (pixelsToLatLng [(0, 0)] 1 1 ((0, 0), (1, 1)))\<rparr>"

definition pendingOverlay :: overlay where
  "pendingOverlay = overlayB\<lparr>getElement := None\<rparr>"

definition pendingManager :: manager where
  "pendingManager = demoManager\<lparr>overlays := [2 \<mapsto> pendingOverlay]\<rparr>"

text \<open>
  The scenario after \<^verbatim>\<open>displayZones\<close> has run with both zones checked, and after it has
  run with the checkbox of zone B cleared, which takes the overlay of B off the map.
\<close>

definition shownManager :: manager where
  "shownManager = displayZones demoEnv demoManager"

definition hiddenManager :: manager where
  "hiddenManager = displayZones (demoEnv\<lparr>checkedZoneIds := [1]\<rparr>) demoManager"

text \<open>
  The map library draws an image overlay as a single \<^verbatim>\<open>IMG\<close> element, and
  \<^verbatim>\<open>getElement()\<close> returns that element: \<^verbatim>\<open>querySelector('img')\<close>, which searches
  the descendants of an element, finds no image in it.  \<open>imageEnv\<close> is the page where
  overlays get such an element, \<open>imageOverlayB\<close> the overlay that \<^verbatim>\<open>addZoneOverlay\<close>
  creates there for zone B, and \<open>imageManager\<close> the scenario displayed from scratch in that
  page.
\<close>

definition imageEnv :: env where
  "imageEnv = demoEnv\<lparr>freshElement := Some \<lparr>img = False, transformOrigin = [], transform = None\<rparr>\<rparr>"

definition imageOverlayB :: overlay where
  "imageOverlayB = \<lparr>getElement = Some \<lparr>img = False, transformOrigin = [], transform = None\<rparr>,
                    getBounds = ((5, 5), (15, 15)), boundsIterable = True, onMap = True\<rparr>"

definition imageManager :: manager where
  "imageManager = displayZones imageEnv (demoManager\<lparr>overlays := Map.empty\<rparr>)"

text \<open>
  A raster of one row of three opaque pixels, and a zone whose perimeter is the geographic
  image of the path extracted from it.
\<close>

definition rowRaster :: imageData where
  "rowRaster = \<lparr>width = 3, height = 1,
                data = [255, 0, 0, 255,  255, 0, 0, 255,  255, 0, 0, 255]\<rparr>"

definition rowZone :: zone where
  "rowZone = \<lparr>zone_id = 4, name = ''orange'', image_path = ''mapzone/orange.png'',
              bounds = ((0, 0), (1, 1)), opacity = Some 0.6, rotation = Some 0,
              perimeter = Some (pixelsToLatLng [(0, 0), (2, 0)] 3 1 ((0, 0), (1, 1)))\<rparr>"

text \<open>
  Bounds one degree wide, and bounds two binary64 steps wide: the binary64 values next to
  \<open>50\<close> are \<open>2^-47\<close> apart and those next to \<open>100\<close> are \<open>2^-46\<close> apart, so the north
  edge \<open>50.000000000000014\<close> and the east edge \<open>100.00000000000003\<close> are the second
  values after the south and the west edge.
\<close>

definition cityBounds :: bounds where
  "cityBounds = ((27, - 98), (28, - 97))"

definition narrowBounds :: bounds where
  "narrowBounds = ((50, 100), (50 + 1 / 2 ^ 46, 100 + 1 / 2 ^ 45))"

text \<open>
  Two paths of 501 points on the x axis: one runs from 0 to 500 in order, the other starts
  at 0, runs from 2 to 500 and comes back to 1.
\<close>

definition straightPath :: "point list" where
  "straightPath = map (\<lambda>i. (real i, 0)) [0..<501]"

definition backtrackPath :: "point list" where
  "backtrackPath = (0, 0) # map (\<lambda>i. (real i, 0)) [2..<501] @ [(1, 0)]"

section \<open>Point queries: stacking order and monotonicity\<close>

lemma checkZones_append_skip:
  "\<forall>z \<in> set zs. \<not> isPointInBounds pt (bounds z) \<Longrightarrow>
   checkZones m pt cp (zs @ ys) = checkZones m pt cp ys"
  by (induction zs) simp_all

lemma find_rev_last:
  "List.find Q (rev zs) = (case filter Q zs of [] \<Rightarrow> None | ys \<Rightarrow> Some (last ys))"
proof (induction zs rule: rev_induct)
  case Nil
  show ?case by simp
next
  case (snoc z zs)
  show ?case
  proof (cases "Q z")
    case True
    have "(case us of [] \<Rightarrow> None | vs \<Rightarrow> Some (last vs)) = Some (last us)"
      if "us \<noteq> []" for us :: "'a list"
      using that by (cases us) simp_all
    from this [of "filter Q zs @ [z]"] True
    show ?thesis by simp
  next
    case False
    then show ?thesis using snoc.IH by simp
  qed
qed

lemma checkZones_find:
  "checkZones m pt checkPixels zs =
     List.find (\<lambda>z. isPointInBounds pt (bounds z) \<and>
                     (checkPixels \<longrightarrow> (case overlays m (zone_id z) of
                                        None \<Rightarrow> True
                                      | Some ov \<Rightarrow> isPointOverColoredPixels m pt ov z))) zs"
proof (induction zs)
  case Nil
  show ?case by simp
next
  case (Cons z zs)
  show ?case using Cons.IH
    by (cases checkPixels; cases "overlays m (zone_id z)") simp_all
qed

lemma getZoneAtPoint_last:
  "getZoneAtPoint m lat lng checkPixels =
     (case filter (\<lambda>z. isPointInBounds (lat, lng) (bounds z) \<and>
                        (checkPixels \<longrightarrow> (case overlays m (zone_id z) of
                                           None \<Rightarrow> True
                                         | Some ov \<Rightarrow> isPointOverColoredPixels m (lat, lng) ov z)))
             (zones m) of
        [] \<Rightarrow> None | ys \<Rightarrow> Some (last ys))"
  by (simp only: getZoneAtPoint_def checkZones_find find_rev_last)

lemma getZoneAtPoint_coarse_last:
  "getZoneAtPoint m lat lng False =
       (case filter (\<lambda>z. isPointInBounds (lat, lng) (bounds z)) (zones m) of
          [] \<Rightarrow> None | ys \<Rightarrow> Some (last ys))"
  using getZoneAtPoint_last [of m lat lng False] by simp

lemma checkZones_fine_in_bounds:
  "checkZones m pt cp zs = Some z \<Longrightarrow> z \<in> set zs \<and> isPointInBounds pt (bounds z)"
  by (induction zs) (auto split: if_splits option.splits)

lemma checkZones_coarse_some:
  "z \<in> set zs \<Longrightarrow> isPointInBounds pt (bounds z) \<Longrightarrow> \<exists>z'. checkZones m pt False zs = Some z'"
  by (induction zs) auto

lemma getZoneAtPoint_all_active:
  assumes "list_all (isActive m) (zones m)"
  shows "getZoneAtPoint m lat lng False = topmostActiveZone m lat lng"
proof -
  from assms have "filter (isActive m) (zones m) = zones m"
    by (simp add: list_all_iff)
  then show ?thesis
    using checkZones_find [of m "(lat, lng)" False "rev (zones m)"]
    by (simp add: getZoneAtPoint_def topmostActiveZone_def)
qed

lemma hiddenManager_zones:
  "zones hiddenManager = [zoneA, zoneB] \<and> isActive hiddenManager zoneA
   \<and> \<not> isActive hiddenManager zoneB"
  by (simp add: hiddenManager_def displayZones_def addZoneOverlay_def demoEnv_def demoManager_def
      zoneA_def zoneB_def overlayB_def isActive_def Let_def)

lemma shownManager_zones:
  "zones shownManager = [zoneA, zoneB] \<and> isActive shownManager zoneA
   \<and> isActive shownManager zoneB"
  by (simp add: shownManager_def displayZones_def addZoneOverlay_def demoEnv_def demoManager_def
      zoneA_def zoneB_def overlayB_def isActive_def Let_def)

text \<open>
  C3 (amended).  \<^verbatim>\<open>getZoneAtPoint\<close> goes through \<^verbatim>\<open>this.zones\<close>, all the loaded
  zones whether they are displayed or not, from the last zone to the first: it returns the
  zone that comes last in the list (the most recently added one) among those that qualify,
  and nothing when there is none.  Without the pixel test a zone qualifies when its bounds
  contain the point; with it, the zone must also have no overlay or pass
  \<^verbatim>\<open>isPointOverColoredPixels\<close>.  With zone A of bounds \<open>[[0,0],[10,10]]\<close> and zone B of
  bounds \<open>[[5,5],[15,15]]\<close> added after A, the point \<open>(7,7)\<close> resolves to B without the
  pixel test.  When every loaded zone is active, the result without the pixel test is the
  topmost active zone whose bounds contain the point.
\<close>

theorem getZoneAtPoint_topmost:
  "getZoneAtPoint m lat lng checkPixels =
     (case filter (\<lambda>z. isPointInBounds (lat, lng) (bounds z) \<and>
                        (checkPixels \<longrightarrow> (case overlays m (zone_id z) of
                                           None \<Rightarrow> True
                                         | Some ov \<Rightarrow> isPointOverColoredPixels m (lat, lng) ov z)))
             (zones m) of
        [] \<Rightarrow> None | ys \<Rightarrow> Some (last ys))
   \<and> getZoneAtPoint m lat lng False =
       (case filter (\<lambda>z. isPointInBounds (lat, lng) (bounds z)) (zones m) of
          [] \<Rightarrow> None | ys \<Rightarrow> Some (last ys))
   \<and> (zones m = [a, b] \<and> bounds a = ((0, 0), (10, 10)) \<and> bounds b = ((5, 5), (15, 15))
        \<longrightarrow> getZoneAtPoint m 7 7 False = Some b)
   \<and> (list_all (isActive m) (zones m)
        \<longrightarrow> getZoneAtPoint m lat lng False = topmostActiveZone m lat lng)"
proof (intro conjI impI)
  show "getZoneAtPoint m lat lng checkPixels =
     (case filter (\<lambda>z. isPointInBounds (lat, lng) (bounds z) \<and>
                        (checkPixels \<longrightarrow> (case overlays m (zone_id z) of
                                           None \<Rightarrow> True
                                         | Some ov \<Rightarrow> isPointOverColoredPixels m (lat, lng) ov z)))
             (zones m) of
        [] \<Rightarrow> None | ys \<Rightarrow> Some (last ys))"
    by (rule getZoneAtPoint_last)
  show "getZoneAtPoint m lat lng False =
       (case filter (\<lambda>z. isPointInBounds (lat, lng) (bounds z)) (zones m) of
          [] \<Rightarrow> None | ys \<Rightarrow> Some (last ys))"
    by (rule getZoneAtPoint_coarse_last)
next
  assume "zones m = [a, b] \<and> bounds a = ((0, 0), (10, 10)) \<and> bounds b = ((5, 5), (15, 15))"
  then show "getZoneAtPoint m 7 7 False = Some b"
    by (simp add: getZoneAtPoint_coarse_last isPointInBounds_def)
next
  assume "list_all (isActive m) (zones m)"
  then show "getZoneAtPoint m lat lng False = topmostActiveZone m lat lng"
    by (rule getZoneAtPoint_all_active)
qed

theorem getZoneAtPoint_topmost_witness:
  "zones demoManager = [zoneA, zoneB] \<and> bounds zoneA = ((0, 0), (10, 10))
   \<and> bounds zoneB = ((5, 5), (15, 15)) \<and> getZoneAtPoint demoManager 7 7 False = Some zoneB
   \<and> zones shownManager = [zoneA, zoneB] \<and> list_all (isActive shownManager) (zones shownManager)
   \<and> topmostActiveZone shownManager 7 7 = Some zoneB
   \<and> getZoneAtPoint shownManager 7 7 False = Some zoneB"
proof -
  have z: "zones demoManager = [zoneA, zoneB]" by (simp add: demoManager_def)
  have a: "bounds zoneA = ((0, 0), (10, 10))" by (simp add: zoneA_def)
  have b: "bounds zoneB = ((5, 5), (15, 15))" by (simp add: zoneB_def)
  from getZoneAtPoint_topmost [of demoManager 7 7 False zoneA zoneB] z a b
  have 1: "getZoneAtPoint demoManager 7 7 False = Some zoneB" by blast
  have s: "zones shownManager = [zoneA, zoneB]"
    and l: "list_all (isActive shownManager) (zones shownManager)"
    using shownManager_zones by simp_all
  have t: "topmostActiveZone shownManager 7 7 = Some zoneB"
    using shownManager_zones by (simp add: topmostActiveZone_def isPointInBounds_def b)
  from getZoneAtPoint_topmost [of shownManager 7 7 False zoneA zoneB] l
  have "getZoneAtPoint shownManager 7 7 False = topmostActiveZone shownManager 7 7" by blast
  with t have 2: "getZoneAtPoint shownManager 7 7 False = Some zoneB" by simp
  from z a b 1 s l t 2 show ?thesis by simp
qed

text \<open>
  C3 as stated fails: after \<^verbatim>\<open>displayZones\<close> has taken zone B off the map, zone A is the
  only active zone and its bounds contain \<open>(7, 7)\<close>, so A is the topmost active zone at
  that point; \<^verbatim>\<open>getZoneAtPoint\<close> still returns B, which is loaded but not active.
\<close>

theorem getZoneAtPoint_returns_hidden_zone:
  "isActive hiddenManager zoneA \<and> \<not> isActive hiddenManager zoneB
   \<and> isPointInBounds (7, 7) (bounds zoneA) \<and> isPointInBounds (7, 7) (bounds zoneB)
   \<and> topmostActiveZone hiddenManager 7 7 = Some zoneA
   \<and> getZoneAtPoint hiddenManager 7 7 False = Some zoneB
   \<and> zoneA \<noteq> zoneB"
proof -
  have z: "zones hiddenManager = [zoneA, zoneB]" and a: "isActive hiddenManager zoneA"
    and b: "\<not> isActive hiddenManager zoneB"
    using hiddenManager_zones by simp_all
  have ia: "isPointInBounds (7, 7) (bounds zoneA)" and ib: "isPointInBounds (7, 7) (bounds zoneB)"
    by (simp_all add: isPointInBounds_def zoneA_def zoneB_def)
  have t: "topmostActiveZone hiddenManager 7 7 = Some zoneA"
    using z a b ia by (simp add: topmostActiveZone_def)
  have g: "getZoneAtPoint hiddenManager 7 7 False = Some zoneB"
    using z ib by (simp add: getZoneAtPoint_def)
  have n: "zoneA \<noteq> zoneB" by (simp add: zoneA_def zoneB_def)
  from a b ia ib t g n show ?thesis by simp
qed

text \<open>
  C4.  A point for which the pixel-accurate query returns a zone also gets a zone from the
  coarse query.  In the coarse query a point inside the bounds of a zone returns that zone
  when no zone later in the list (stacked higher) contains the point in its bounds.
\<close>

theorem getZoneAtPoint_monotone:
  "(getZoneAtPoint m lat lng True = Some z \<longrightarrow> (\<exists>z'. getZoneAtPoint m lat lng False = Some z'))
   \<and> (zones m = lower @ z # higher \<and> isPointInBounds (lat, lng) (bounds z)
        \<and> (\<forall>h \<in> set higher. \<not> isPointInBounds (lat, lng) (bounds h))
        \<longrightarrow> getZoneAtPoint m lat lng False = Some z)"
proof (intro conjI impI)
  assume "getZoneAtPoint m lat lng True = Some z"
  then have "z \<in> set (rev (zones m)) \<and> isPointInBounds (lat, lng) (bounds z)"
    unfolding getZoneAtPoint_def by (rule checkZones_fine_in_bounds)
  then show "\<exists>z'. getZoneAtPoint m lat lng False = Some z'"
    unfolding getZoneAtPoint_def using checkZones_coarse_some by blast
next
  assume a: "zones m = lower @ z # higher \<and> isPointInBounds (lat, lng) (bounds z)
        \<and> (\<forall>h \<in> set higher. \<not> isPointInBounds (lat, lng) (bounds h))"
  then have "\<forall>h \<in> set (rev higher). \<not> isPointInBounds (lat, lng) (bounds h)" by simp
  then have "checkZones m (lat, lng) False (rev higher @ (z # rev lower))
      = checkZones m (lat, lng) False (z # rev lower)"
    by (rule checkZones_append_skip)
  with a show "getZoneAtPoint m lat lng False = Some z"
    by (simp add: getZoneAtPoint_def)
qed

theorem getZoneAtPoint_monotone_witness:
  "getZoneAtPoint demoManager 12 12 True = Some zoneB
   \<and> zones demoManager = [zoneA] @ zoneB # []
   \<and> isPointInBounds (12, 12) (bounds zoneB)
   \<and> getZoneAtPoint demoManager 12 12 False = Some zoneB"
proof -
  have t: "getZoneAtPoint demoManager 12 12 True = Some zoneB"
    by (simp add: getZoneAtPoint_def demoManager_def zoneA_def zoneB_def overlayB_def
        isPointInBounds_def isPointOverColoredPixels_def cachedContentBounds_def)
  have z: "zones demoManager = [zoneA] @ zoneB # []" by (simp add: demoManager_def)
  have i: "isPointInBounds (12, 12) (bounds zoneB)" by (simp add: isPointInBounds_def zoneB_def)
  from getZoneAtPoint_monotone [of demoManager 12 12 zoneB "[zoneA]" "[]"] z i
  have "getZoneAtPoint demoManager 12 12 False = Some zoneB" by simp
  with t z i show ?thesis by simp
qed

text \<open>
  C10.  \<^verbatim>\<open>isPointOverColoredPixels\<close> does not return true whenever no content bounds are
  cached: its two guards return false before the cache is read.  Zone B is displayed with
  the overlay that \<^verbatim>\<open>addZoneOverlay\<close> creates, whose element has no image among its
  descendants, and nothing is cached for it; the point \<open>(12, 12)\<close> is inside the bounds of
  B and of no other zone.  \<^verbatim>\<open>isPointOverColoredPixels\<close> is false there, and the
  pixel-accurate query returns nothing where the coarse query returns B.  The same holds
  when the overlay of B has no element at all.
\<close>

theorem isPointOverColoredPixels_rejects_uncached:
  "overlays imageManager (zone_id zoneB) = Some imageOverlayB
   \<and> cachedContentBounds imageManager (zone_id zoneB) = None
   \<and> isPointInBounds (12, 12) (bounds zoneB)
   \<and> isPointOverColoredPixels imageManager (12, 12) imageOverlayB zoneB = False
   \<and> getZoneAtPoint imageManager 12 12 False = Some zoneB
   \<and> getZoneAtPoint imageManager 12 12 True = None
   \<and> overlays pendingManager (zone_id zoneB) = Some pendingOverlay
   \<and> cachedContentBounds pendingManager (zone_id zoneB) = None
   \<and> isPointOverColoredPixels pendingManager (12, 12) pendingOverlay zoneB = False
   \<and> getZoneAtPoint pendingManager 12 12 False = Some zoneB
   \<and> getZoneAtPoint pendingManager 12 12 True = None"
proof -
  have z: "zones imageManager = [zoneA, zoneB]"
    and o: "overlays imageManager (zone_id zoneB) = Some imageOverlayB"
    and c: "cachedContentBounds imageManager (zone_id zoneB) = None"
    by (simp_all add: imageManager_def imageEnv_def imageOverlayB_def displayZones_def
        addZoneOverlay_def demoEnv_def demoManager_def zoneA_def zoneB_def
        cachedContentBounds_def Let_def)
  have i: "isPointInBounds (12, 12) (bounds zoneB)"
    and na: "\<not> isPointInBounds (12, 12) (bounds zoneA)"
    by (simp_all add: isPointInBounds_def zoneA_def zoneB_def)
  have p: "isPointOverColoredPixels imageManager (12, 12) imageOverlayB zoneB = False"
    by (simp add: isPointOverColoredPixels_def imageOverlayB_def)
  have f: "getZoneAtPoint imageManager 12 12 False = Some zoneB"
    using z i by (simp add: getZoneAtPoint_def)
  have t: "getZoneAtPoint imageManager 12 12 True = None"
    using z i na o p by (simp add: getZoneAtPoint_def)
  have rest: "overlays pendingManager (zone_id zoneB) = Some pendingOverlay
   \<and> cachedContentBounds pendingManager (zone_id zoneB) = None
   \<and> isPointOverColoredPixels pendingManager (12, 12) pendingOverlay zoneB = False
   \<and> getZoneAtPoint pendingManager 12 12 False = Some zoneB
   \<and> getZoneAtPoint pendingManager 12 12 True = None"
    by (simp add: pendingManager_def pendingOverlay_def demoManager_def overlayB_def zoneA_def
      zoneB_def cachedContentBounds_def isPointOverColoredPixels_def isPointInBounds_def
      getZoneAtPoint_def)
  from o c i p f t rest show ?thesis by simp
qed

section \<open>Coordinate mapper: the round trip in binary64 arithmetic\<close>

lemma roundHalfEven_error: "\<bar>of_int (roundHalfEven r) - r\<bar> \<le> 1 / 2"
proof -
  define f where "f = real_of_int \<lfloor>r\<rfloor>"
  have "f \<le> r" "r < f + 1" unfolding f_def by linarith+
  then show ?thesis
    unfolding roundHalfEven_def Let_def f_def [symmetric]
    by (simp add: f_def [symmetric] abs_if)
qed

lemma ulp64_pos: "0 < ulp64 x"
  by (simp add: ulp64_def)

lemma exponent_bounds:
  assumes "x \<noteq> 0"
  shows "2 powr of_int \<lfloor>log 2 \<bar>x\<bar>\<rfloor> \<le> \<bar>x\<bar>" and "\<bar>x\<bar> < 2 powr (of_int \<lfloor>log 2 \<bar>x\<bar>\<rfloor> + 1)"
proof -
  have p: "0 < \<bar>x\<bar>" using assms by simp
  have "of_int \<lfloor>log 2 \<bar>x\<bar>\<rfloor> \<le> log 2 \<bar>x\<bar>" by linarith
  then have "2 powr of_int \<lfloor>log 2 \<bar>x\<bar>\<rfloor> \<le> 2 powr log 2 \<bar>x\<bar>" by simp
  then show "2 powr of_int \<lfloor>log 2 \<bar>x\<bar>\<rfloor> \<le> \<bar>x\<bar>" using p by simp
  have "log 2 \<bar>x\<bar> < of_int \<lfloor>log 2 \<bar>x\<bar>\<rfloor> + 1" by linarith
  then have "2 powr log 2 \<bar>x\<bar> < 2 powr (of_int \<lfloor>log 2 \<bar>x\<bar>\<rfloor> + 1)" by simp
  then show "\<bar>x\<bar> < 2 powr (of_int \<lfloor>log 2 \<bar>x\<bar>\<rfloor> + 1)" using p by simp
qed

lemma ulp64_le: "x \<noteq> 0 \<Longrightarrow> ulp64 x \<le> \<bar>x\<bar> / 2 ^ 52"
proof -
  assume "x \<noteq> 0"
  then have "2 powr of_int \<lfloor>log 2 \<bar>x\<bar>\<rfloor> \<le> \<bar>x\<bar>" by (rule exponent_bounds)
  moreover have "ulp64 x = 2 powr of_int \<lfloor>log 2 \<bar>x\<bar>\<rfloor> / 2 ^ 52"
    by (simp add: ulp64_def powr_diff)
  ultimately show ?thesis by (simp add: divide_right_mono)
qed

lemma round64_error: "\<bar>round64 x - x\<bar> \<le> \<bar>x\<bar> / 2 ^ 53"
proof (cases "x = 0")
  case True
  then show ?thesis by (simp add: round64_def)
next
  case False
  define U where "U = ulp64 x"
  have U: "0 < U" by (simp add: U_def ulp64_pos)
  have "round64 x - x = U * (of_int (roundHalfEven (x / U)) - x / U)"
    using False U by (simp add: round64_def U_def field_simps)
  then have "\<bar>round64 x - x\<bar> = U * \<bar>of_int (roundHalfEven (x / U)) - x / U\<bar>"
    using U by (simp add: abs_mult)
  also have "\<dots> \<le> U * (1 / 2)"
    using U roundHalfEven_error [of "x / U"] by (intro mult_left_mono) simp_all
  also have "\<dots> \<le> (\<bar>x\<bar> / 2 ^ 52) * (1 / 2)"
    using ulp64_le [OF False] by (simp add: U_def)
  also have "\<dots> = \<bar>x\<bar> / 2 ^ 53" by simp
  finally show ?thesis .
qed

lemma round64_rel: "\<exists>d. \<bar>d\<bar> \<le> 1 / 2 ^ 53 \<and> round64 x = x * (1 + d)"
proof (cases "x = 0")
  case True
  then show ?thesis by (intro exI [of _ 0]) (simp add: round64_def)
next
  case False
  let ?d = "(round64 x - x) / x"
  have "\<bar>?d\<bar> = \<bar>round64 x - x\<bar> / \<bar>x\<bar>" by (simp add: abs_divide)
  also have "\<dots> \<le> (\<bar>x\<bar> / 2 ^ 53) / \<bar>x\<bar>"
    using round64_error [of x] by (intro divide_right_mono) simp_all
  also have "\<dots> = 1 / 2 ^ 53" using False by simp
  finally have "\<bar>?d\<bar> \<le> 1 / 2 ^ 53" .
  moreover have "round64 x = x * (1 + ?d)" using False by (simp add: field_simps)
  ultimately show ?thesis by blast
qed

lemma prod_near_one:
  fixes x y :: real
  assumes "\<bar>x - 1\<bar> \<le> a" "\<bar>y - 1\<bar> \<le> c"
  shows "\<bar>x * y - 1\<bar> \<le> (1 + a) * (1 + c) - 1"
proof -
  have a: "0 \<le> a" and c: "0 \<le> c" using assms by linarith+
  have "x * y - 1 = (x - 1) * (y - 1) + (x - 1) + (y - 1)" by (simp add: algebra_simps)
  then have "\<bar>x * y - 1\<bar> \<le> \<bar>x - 1\<bar> * \<bar>y - 1\<bar> + \<bar>x - 1\<bar> + \<bar>y - 1\<bar>"
    by (simp add: abs_mult [symmetric])
  also have "\<dots> \<le> a * c + a + c"
    using assms a c by (intro add_mono mult_mono) simp_all
  finally show ?thesis by (simp add: algebra_simps)
qed

lemma axis_error:
  fixes b s t u :: real
  assumes u: "0 \<le> u" "u \<le> 1 / 8"
    and t: "0 \<le> t" "t \<le> 1" and s: "0 < s"
    and d: "\<bar>d1\<bar> \<le> u" "\<bar>d2\<bar> \<le> u" "\<bar>d3\<bar> \<le> u" "\<bar>d4\<bar> \<le> u" "\<bar>d5\<bar> \<le> u" "\<bar>d6\<bar> \<le> u"
    and sg: "sg = 1 \<or> sg = - 1"
    and t': "t' = t * (1 + d1)" and s': "s' = s * (1 + d2)" and p: "p = s' * t' * (1 + d3)"
    and g: "g = (b + sg * p) * (1 + d4)" and q: "q = sg * (g - b) * (1 + d5)"
    and n: "n = q / s' * (1 + d6)"
  shows "\<bar>n - t\<bar> \<le> 8 * u * (1 + \<bar>b\<bar> / s)"
proof -
  define c where "c = 1 + u"
  have c: "1 \<le> c" "c \<le> 9 / 8" using u by (simp_all add: c_def)
  have c2: "c * c \<le> 81 / 64"
    using mult_mono [of c "9 / 8" c "9 / 8"] c by simp
  have c3: "c * c * c \<le> 729 / 512"
    using mult_mono [of "c * c" "81 / 64" c "9 / 8"] c c2 by simp
  have f: "\<bar>1 + d1\<bar> \<le> c" "\<bar>1 + d2\<bar> \<le> c" "\<bar>1 + d3\<bar> \<le> c" "\<bar>1 + d5\<bar> \<le> c" "\<bar>1 + d6\<bar> \<le> c"
    using d by (simp_all add: c_def abs_if split: if_splits)
  have d2: "1 - u \<le> 1 + d2" using d(2) by (simp add: abs_if split: if_splits)
  have s'lo: "s * (1 - u) \<le> s'" unfolding s' using s d2 by (intro mult_left_mono) simp_all
  have s'lo7: "s * (7 / 8) \<le> s'"
  proof -
    have "s * (7 / 8) \<le> s * (1 - u)" using s u by (intro mult_left_mono) simp_all
    with s'lo show ?thesis by linarith
  qed
  have s'pos: "0 < s'" using s'lo7 s by (simp add: less_le_trans)
  define F where "F = (1 + d1) * (1 + d3)"
  define E where "E = (1 + d5) * (1 + d6)"
  have eq: "n - t = t * (F * E - 1) + sg * d4 * (b + sg * p) * E / s'"
  proof -
    have ps: "p / s' = t * F" using s'pos by (simp add: p t' F_def)
    have sg2: "sg * sg = 1" using sg by auto
    have "q = (p + sg * d4 * (b + sg * p)) * (1 + d5)"
      using sg2 by (simp add: q g algebra_simps)
    then have "n = (p / s' + sg * d4 * (b + sg * p) / s') * E"
      by (simp add: n E_def add_divide_distrib algebra_simps)
    then show ?thesis by (simp add: ps algebra_simps)
  qed
  have FE: "\<bar>F * E - 1\<bar> \<le> 4 * u + u"
  proof -
    have 1: "\<bar>(1 + d1) - 1\<bar> \<le> u" "\<bar>(1 + d3) - 1\<bar> \<le> u" "\<bar>(1 + d5) - 1\<bar> \<le> u"
      "\<bar>(1 + d6) - 1\<bar> \<le> u" using d by simp_all
    have "\<bar>F - 1\<bar> \<le> (1 + u) * (1 + u) - 1" unfolding F_def
      by (rule prod_near_one [OF 1(1) 1(2)])
    moreover have "\<bar>E - 1\<bar> \<le> (1 + u) * (1 + u) - 1" unfolding E_def
      by (rule prod_near_one [OF 1(3) 1(4)])
    ultimately have "\<bar>F * E - 1\<bar> \<le> (1 + ((1 + u) * (1 + u) - 1)) * (1 + ((1 + u) * (1 + u) - 1)) - 1"
      by (rule prod_near_one)
    also have "\<dots> = u * (c * c * c + c * c + c + 1)"
      by (simp add: c_def algebra_simps)
    also have "\<dots> \<le> u * 5"
      using u c c2 c3 by (intro mult_left_mono) simp_all
    finally show ?thesis by simp
  qed
  have Eb: "\<bar>E\<bar> \<le> 81 / 64"
  proof -
    have "\<bar>E\<bar> \<le> c * c" unfolding E_def abs_mult
      using f c by (intro mult_mono) simp_all
    with c2 show ?thesis by linarith
  qed
  have pb: "\<bar>p\<bar> \<le> s * (729 / 512)"
  proof -
    have tb: "\<bar>t'\<bar> \<le> 1 * c" unfolding t' abs_mult
      using t f c by (intro mult_mono) simp_all
    have sb: "\<bar>s'\<bar> \<le> s * c" unfolding s' abs_mult
      using s f c by (intro mult_mono) simp_all
    have st: "\<bar>s'\<bar> * \<bar>t'\<bar> \<le> (s * c) * (1 * c)"
      using s c by (intro mult_mono [OF sb tb]) simp_all
    have "\<bar>s'\<bar> * \<bar>t'\<bar> * \<bar>1 + d3\<bar> \<le> (s * c) * (1 * c) * c"
      using s c by (intro mult_mono [OF st f(3)]) simp_all
    then have "\<bar>p\<bar> \<le> s * (c * c * c)" by (simp add: p abs_mult mult_ac)
    also have "\<dots> \<le> s * (729 / 512)" using s c3 by (intro mult_left_mono) simp_all
    finally show ?thesis .
  qed
  have second: "\<bar>sg * d4 * (b + sg * p) * E / s'\<bar> \<le> u * (3 * (\<bar>b\<bar> / s) + 3)"
  proof -
    have sgb: "\<bar>sg\<bar> = 1" using sg by auto
    have bp: "\<bar>b + sg * p\<bar> \<le> \<bar>b\<bar> + s * (729 / 512)"
    proof -
      have "\<bar>b + sg * p\<bar> \<le> \<bar>b\<bar> + \<bar>sg * p\<bar>" by (rule abs_triangle_ineq)
      also have "\<bar>sg * p\<bar> = \<bar>p\<bar>" by (simp add: abs_mult sgb)
      finally show ?thesis using pb by linarith
    qed
    have num: "\<bar>d4\<bar> * \<bar>b + sg * p\<bar> * \<bar>E\<bar> \<le> u * (\<bar>b\<bar> + s * (729 / 512)) * (81 / 64)"
      using d(4) bp Eb u by (intro mult_mono) simp_all
    have "\<bar>sg * d4 * (b + sg * p) * E / s'\<bar> = \<bar>d4\<bar> * \<bar>b + sg * p\<bar> * \<bar>E\<bar> / s'"
      using s'pos by (simp add: abs_mult abs_divide sgb)
    also have "\<dots> \<le> u * (\<bar>b\<bar> + s * (729 / 512)) * (81 / 64) / s'"
      using num s'pos by (intro divide_right_mono) simp_all
    also have "\<dots> \<le> u * (\<bar>b\<bar> + s * (729 / 512)) * (81 / 64) / (s * (7 / 8))"
      using s'lo7 s u by (intro divide_left_mono mult_nonneg_nonneg mult_pos_pos add_nonneg_nonneg s'pos) simp_all
    also have "\<dots> = u * ((81 / 56) * (\<bar>b\<bar> / s) + 59049 / 28672)"
      using s by (simp add: field_simps)
    also have "\<dots> \<le> u * (3 * (\<bar>b\<bar> / s) + 3)"
      using u s by (intro mult_left_mono add_mono mult_right_mono) simp_all
    finally show ?thesis .
  qed
  have first: "\<bar>t * (F * E - 1)\<bar> \<le> 5 * u"
  proof -
    have "\<bar>t * (F * E - 1)\<bar> = t * \<bar>F * E - 1\<bar>" using t by (simp add: abs_mult)
    also have "\<dots> \<le> 1 * (4 * u + u)" using t FE u by (intro mult_mono) simp_all
    finally show ?thesis by simp
  qed
  have "\<bar>n - t\<bar> \<le> \<bar>t * (F * E - 1)\<bar> + \<bar>sg * d4 * (b + sg * p) * E / s'\<bar>"
    unfolding eq by (rule abs_triangle_ineq)
  also have "\<dots> \<le> 5 * u + u * (3 * (\<bar>b\<bar> / s) + 3)"
    using first second by linarith
  also have "\<dots> \<le> 8 * u * (1 + \<bar>b\<bar> / s)"
  proof -
    define r where "r = u * (\<bar>b\<bar> / s)"
    have "0 \<le> r" using u s by (simp add: r_def)
    moreover have "5 * u + u * (3 * (\<bar>b\<bar> / s) + 3) = 8 * u + 3 * r"
      by (simp add: r_def algebra_simps)
    moreover have "8 * u * (1 + \<bar>b\<bar> / s) = 8 * u + 8 * r"
      by (simp add: r_def algebra_simps)
    ultimately show ?thesis by linarith
  qed
  finally show ?thesis .
qed

lemma ulp64_eval:
  assumes "2 powr of_int e \<le> \<bar>x\<bar>" and "\<bar>x\<bar> < 2 powr (of_int e + 1)"
  shows "ulp64 x = 2 powr (of_int e - 52)"
proof -
  have "0 < (2::real) powr of_int e" by simp
  with assms(1) have p: "0 < \<bar>x\<bar>" by linarith
  have "of_int e \<le> log 2 \<bar>x\<bar>" using assms(1) p by (simp add: le_log_iff)
  moreover have "log 2 \<bar>x\<bar> < of_int e + 1" using assms(2) p by (simp add: log_less_iff)
  ultimately have "\<lfloor>log 2 \<bar>x\<bar>\<rfloor> = e" by (intro floor_unique) simp_all
  then show ?thesis by (simp add: ulp64_def)
qed

lemma roundHalfEven_of_int: "roundHalfEven (of_int k) = k"
  by (simp add: roundHalfEven_def)

lemma roundHalfEven_tie:
  "roundHalfEven (of_int k + 1 / 2) = (if even k then k else k + 1)"
proof -
  have "\<lfloor>real_of_int k + 1 / 2\<rfloor> = k" by (intro floor_unique) simp_all
  then show ?thesis by (simp add: roundHalfEven_def Let_def)
qed

lemma ulp64_eval_pos:
  assumes "2 ^ n \<le> \<bar>x\<bar>" and "\<bar>x\<bar> < 2 * 2 ^ n"
  shows "ulp64 x = 2 ^ n / 2 ^ 52"
proof -
  have "ulp64 x = 2 powr (of_int (int n) - 52)"
    using assms by (intro ulp64_eval) (simp_all add: powr_add powr_realpow)
  then show ?thesis by (simp add: powr_diff powr_realpow)
qed

lemma ulp64_eval_neg:
  assumes "1 / 2 ^ n \<le> \<bar>x\<bar>" and "\<bar>x\<bar> < 2 / 2 ^ n"
  shows "ulp64 x = 1 / 2 ^ (n + 52)"
proof -
  have a: "2 powr of_int (- int n) = (1::real) / 2 ^ n"
    by (simp add: powr_minus powr_realpow divide_simps)
  have b: "2 powr (of_int (- int n) + 1) = (2::real) / 2 ^ n"
    by (simp only: powr_add a) simp
  have c: "2 powr (of_int (- int n) - 52) = (1::real) / 2 ^ (n + 52)"
    by (simp only: powr_diff a) (simp add: power_add)
  have "ulp64 x = 2 powr (of_int (- int n) - 52)"
    by (rule ulp64_eval) (simp_all only: a b assms)
  then show ?thesis by (simp only: c)
qed

lemma round64_exact:
  assumes "ulp64 x = U" and "x = U * of_int k"
  shows "round64 x = x"
proof -
  have U: "0 < U" using ulp64_pos [of x] assms(1) by simp
  have "x / U = of_int k" using assms(2) U by simp
  then have "round64 x = (if x = 0 then 0 else U * of_int k)"
    by (simp add: round64_def assms(1) roundHalfEven_of_int)
  then show ?thesis using assms(2) by simp
qed

lemma round64_tie:
  assumes "ulp64 x = U" and "x = U * (of_int k + 1 / 2)"
  shows "round64 x = U * of_int (if even k then k else k + 1)"
proof -
  have U: "0 < U" using ulp64_pos [of x] assms(1) by simp
  have "real_of_int k + 1 / 2 \<noteq> 0"
  proof
    assume "real_of_int k + 1 / 2 = 0"
    then have "real_of_int (2 * k + 1) = 0" by simp
    then have "2 * k + 1 = 0" by (simp only: of_int_eq_0_iff)
    then show False by presburger
  qed
  then have nz: "x \<noteq> 0" using assms(2) U by simp
  have "x / U = of_int k + 1 / 2" using assms(2) U by simp
  then show ?thesis using nz
    by (simp only: round64_def assms(1) roundHalfEven_tie if_False)
qed

lemma round64_zero: "round64 0 = 0"
  by (simp add: round64_def)

lemma round64_inv_pow2: "round64 (1 / 2 ^ n) = 1 / 2 ^ n"
proof -
  have u: "ulp64 (1 / 2 ^ n) = 1 / 2 ^ (n + 52)"
    by (rule ulp64_eval_neg) (simp_all add: divide_strict_right_mono)
  show ?thesis by (rule round64_exact [OF u, of "2 ^ 52"]) (simp add: power_add)
qed

lemma round64_west_tie: "round64 (100 + 1 / 2 ^ 47) = 100"
proof -
  have u: "ulp64 (100 + 1 / 2 ^ 47) = 2 ^ 6 / 2 ^ 52" by (rule ulp64_eval_pos) simp_all
  have e: "even (100 * 2 ^ 46 :: int)" by simp
  have "round64 (100 + 1 / 2 ^ 47) = 2 ^ 6 / 2 ^ 52 * of_int (if even (100 * 2 ^ 46 :: int) then 100 * 2 ^ 46 else 100 * 2 ^ 46 + 1)"
    by (rule round64_tie [OF u]) simp
  then show ?thesis by (simp only: e if_True) simp
qed

lemma round64_north_tie: "round64 (50 + 1 / 2 ^ 46 - 1 / 2 ^ 48) = 50 + 1 / 2 ^ 46"
proof -
  have u: "ulp64 (50 + 1 / 2 ^ 46 - 1 / 2 ^ 48) = 2 ^ 5 / 2 ^ 52"
    by (rule ulp64_eval_pos) simp_all
  have e: "odd (50 * 2 ^ 47 + 1 :: int)" by simp
  have "round64 (50 + 1 / 2 ^ 46 - 1 / 2 ^ 48) =
      2 ^ 5 / 2 ^ 52 * of_int (if even (50 * 2 ^ 47 + 1 :: int) then 50 * 2 ^ 47 + 1
                                else 50 * 2 ^ 47 + 1 + 1)"
    by (rule round64_tie [OF u]) simp
  then show ?thesis by (simp only: e if_False) simp
qed

lemma round64_int_exact:
  assumes "2 ^ n \<le> \<bar>real_of_int k\<bar>" and "\<bar>real_of_int k\<bar> < 2 * 2 ^ n" and "n \<le> 52"
  shows "round64 (of_int k) = of_int k"
proof -
  have u: "ulp64 (of_int k) = 2 ^ n / 2 ^ 52" by (rule ulp64_eval_pos [OF assms(1,2)])
  have "(2::real) ^ 52 = 2 ^ (52 - n) * 2 ^ n"
    using assms(3) by (simp add: power_add [symmetric])
  then have "of_int k = 2 ^ n / 2 ^ 52 * real_of_int (k * 2 ^ (52 - n))"
    by (simp add: mult.commute)
  then show ?thesis by (rule round64_exact [OF u])
qed

lemma narrowBounds_binary64:
  "round64 50 = 50 \<and> round64 100 = 100 \<and> round64 25 = 25
   \<and> round64 (50 + 1 / 2 ^ 46) = 50 + 1 / 2 ^ 46
   \<and> round64 (100 + 1 / 2 ^ 45) = 100 + 1 / 2 ^ 45"
proof -
  have a: "round64 50 = 50" using round64_int_exact [of 5 50] by simp
  have b: "round64 100 = 100" using round64_int_exact [of 6 100] by simp
  have c: "round64 25 = 25" using round64_int_exact [of 4 25] by simp
  have u: "ulp64 (50 + 1 / 2 ^ 46) = 2 ^ 5 / 2 ^ 52" by (rule ulp64_eval_pos) simp_all
  have d: "round64 (50 + 1 / 2 ^ 46) = 50 + 1 / 2 ^ 46"
    by (rule round64_exact [OF u, of "50 * 2 ^ 47 + 2"]) simp
  have v: "ulp64 (100 + 1 / 2 ^ 45) = 2 ^ 6 / 2 ^ 52" by (rule ulp64_eval_pos) simp_all
  have e: "round64 (100 + 1 / 2 ^ 45) = 100 + 1 / 2 ^ 45"
    by (rule round64_exact [OF v, of "100 * 2 ^ 46 + 2"]) simp
  from a b c d e show ?thesis by simp
qed

lemma axis64:
  assumes "0 < W" and "0 \<le> x" and "x \<le> W" and "0 < s" and "sg = 1 \<or> sg = - 1"
  shows "round64 s \<noteq> 0"
    and "\<bar>round64 (round64 (sg * (round64 (b + sg * round64 (round64 s * round64 (x / W))) - b))
                   / round64 s) - x / W\<bar> \<le> (1 + \<bar>b\<bar> / s) / 2 ^ 50"
proof -
  define t where "t = x / W"
  define t' where "t' = round64 t"
  define s' where "s' = round64 s"
  define p where "p = round64 (s' * t')"
  define g where "g = round64 (b + sg * p)"
  define q where "q = round64 (sg * (g - b))"
  define n where "n = round64 (q / s')"
  obtain d1 where d1: "\<bar>d1\<bar> \<le> 1 / 2 ^ 53" "t' = t * (1 + d1)"
    unfolding t'_def using round64_rel [of t] by blast
  obtain d2 where d2: "\<bar>d2\<bar> \<le> 1 / 2 ^ 53" "s' = s * (1 + d2)"
    unfolding s'_def using round64_rel [of s] by blast
  obtain d3 where d3: "\<bar>d3\<bar> \<le> 1 / 2 ^ 53" "p = s' * t' * (1 + d3)"
    unfolding p_def using round64_rel [of "s' * t'"] by blast
  obtain d4 where d4: "\<bar>d4\<bar> \<le> 1 / 2 ^ 53" "g = (b + sg * p) * (1 + d4)"
    unfolding g_def using round64_rel [of "b + sg * p"] by blast
  obtain d5 where d5: "\<bar>d5\<bar> \<le> 1 / 2 ^ 53" "q = sg * (g - b) * (1 + d5)"
    unfolding q_def using round64_rel [of "sg * (g - b)"] by blast
  obtain d6 where d6: "\<bar>d6\<bar> \<le> 1 / 2 ^ 53" "n = q / s' * (1 + d6)"
    unfolding n_def using round64_rel [of "q / s'"] by blast
  have t: "0 \<le> t" "t \<le> 1" using assms(1-3) by (simp_all add: t_def)
  have "0 < 1 + d2" using d2(1) by (simp add: abs_if split: if_splits)
  then have "0 < s'" unfolding d2(2) using assms(4) by simp
  then show "round64 s \<noteq> 0" by (simp add: s'_def)
  have "\<bar>n - t\<bar> \<le> 8 * (1 / 2 ^ 53) * (1 + \<bar>b\<bar> / s)"
    by (rule axis_error [OF _ _ t assms(4) d1(1) d2(1) d3(1) d4(1) d5(1) d6(1) assms(5)
          d1(2) d2(2) d3(2) d4(2) d5(2) d6(2)]) simp_all
  then have "\<bar>n - t\<bar> \<le> (1 + \<bar>b\<bar> / s) / 2 ^ 50" by simp
  then show "\<bar>round64 (round64 (sg * (round64 (b + sg * round64 (round64 s * round64 (x / W))) - b))
                   / round64 s) - x / W\<bar> \<le> (1 + \<bar>b\<bar> / s) / 2 ^ 50"
    by (simp only: n_def q_def g_def p_def s'_def t'_def t_def)
qed

lemma cityBounds_roundtrip:
  "pixelToLatLng64 4 4 cityBounds (1, 1) = Some (111 / 4, - (391 / 4))
   \<and> normalizedPosition64 cityBounds (111 / 4, - (391 / 4)) = Some (1 / 4, 1 / 4)"
proof -
  have q: "round64 (1 / 4) = 1 / 4" using round64_inv_pow2 [of 2] by simp
  have one: "round64 1 = 1" using round64_inv_pow2 [of 0] by simp
  have u: "ulp64 (- (391 / 4)) = 2 ^ 6 / 2 ^ 52" by (rule ulp64_eval_pos) simp_all
  have lng: "round64 (- (391 / 4)) = - (391 / 4)"
    by (rule round64_exact [OF u, of "- 391 * 2 ^ 44"]) simp
  have v: "ulp64 (111 / 4) = 2 ^ 4 / 2 ^ 52" by (rule ulp64_eval_pos) simp_all
  have lat: "round64 (111 / 4) = 111 / 4"
    by (rule round64_exact [OF v, of "111 * 2 ^ 46"]) simp
  have p: "pixelToLatLng64 4 4 cityBounds (1, 1) = Some (111 / 4, - (391 / 4))"
    by (simp add: pixelToLatLng64_def cityBounds_def Let_def add64_def sub64_def mul64_def
        div64_def q one lng lat)
  have n: "normalizedPosition64 cityBounds (111 / 4, - (391 / 4)) = Some (1 / 4, 1 / 4)"
    by (simp add: normalizedPosition64_def cityBounds_def Let_def sub64_def div64_def q one)
  from p n show ?thesis by simp
qed

text \<open>
  C6 (amended).  For an image of positive width and height, a pixel with \<open>0 \<le> x \<le> W\<close> and
  \<open>0 \<le> y \<le> H\<close> and bounds with \<open>south < north\<close> and \<open>west < east\<close>, the conversion
  returns \<open>lng = west + (east - west) * (x / W)\<close> and \<open>lat = north - (north - south) * (y / H)\<close>,
  each operation rounded to binary64.  The normalized position that
  \<^verbatim>\<open>isPointOverColoredPixels\<close> computes for this point is defined, and it differs from
  \<open>(x / W, y / H)\<close> by at most \<open>2^-50 * (1 + |west| / (east - west))\<close> in its first and
  \<open>2^-50 * (1 + |north| / (north - south))\<close> in its second coordinate: the tolerance of the
  round trip is relative to the span of the bounds.
\<close>

theorem pixelsToLatLng_roundtrip:
  assumes "0 < W" and "0 < H" and "0 \<le> x" and "x \<le> W" and "0 \<le> y" and "y \<le> H"
    and "south < north" and "west < east"
  shows "\<exists>lat lng normX normY.
      pixelToLatLng64 W H ((south, west), (north, east)) (x, y) = Some (lat, lng)
    \<and> lng = add64 west (mul64 (sub64 east west) (div64 x W))
    \<and> lat = sub64 north (mul64 (sub64 north south) (div64 y H))
    \<and> normalizedPosition64 ((south, west), (north, east)) (lat, lng) = Some (normX, normY)
    \<and> \<bar>normX - x / W\<bar> \<le> (1 + \<bar>west\<bar> / (east - west)) / 2 ^ 50
    \<and> \<bar>normY - y / H\<bar> \<le> (1 + \<bar>north\<bar> / (north - south)) / 2 ^ 50"
proof -
  define lng where "lng = add64 west (mul64 (sub64 east west) (div64 x W))"
  define lat where "lat = sub64 north (mul64 (sub64 north south) (div64 y H))"
  define normX where "normX = div64 (sub64 lng west) (sub64 east west)"
  define normY where "normY = div64 (sub64 north lat) (sub64 north south)"
  have sx: "0 < east - west" and sy: "0 < north - south" using assms by simp_all
  have p: "pixelToLatLng64 W H ((south, west), (north, east)) (x, y) = Some (lat, lng)"
    using assms(1,2) by (simp add: pixelToLatLng64_def lat_def lng_def Let_def)
  have nzx: "sub64 east west \<noteq> 0"
    unfolding sub64_def by (rule axis64(1) [OF assms(1,3,4) sx, of 1]) simp
  have nzy: "sub64 north south \<noteq> 0"
    unfolding sub64_def by (rule axis64(1) [OF assms(2,5,6) sy, of 1]) simp
  have n: "normalizedPosition64 ((south, west), (north, east)) (lat, lng) = Some (normX, normY)"
    using nzx nzy by (simp add: normalizedPosition64_def normX_def normY_def Let_def)
  have ex: "\<bar>normX - x / W\<bar> \<le> (1 + \<bar>west\<bar> / (east - west)) / 2 ^ 50"
    using axis64(2) [OF assms(1,3,4) sx, of 1 west]
    by (simp add: normX_def lng_def add64_def sub64_def mul64_def div64_def)
  have ey: "\<bar>normY - y / H\<bar> \<le> (1 + \<bar>north\<bar> / (north - south)) / 2 ^ 50"
    using axis64(2) [OF assms(2,5,6) sy, of "- 1" north]
    by (simp add: normY_def lat_def add64_def sub64_def mul64_def div64_def)
  from p n ex ey show ?thesis
    unfolding lng_def lat_def by blast
qed

theorem pixelsToLatLng_roundtrip_witness:
  "(0 :: real) < 4 \<and> (0 :: real) \<le> 1 \<and> (1 :: real) \<le> 4 \<and> (27 :: real) < 28
   \<and> (- 98 :: real) < - 97
   \<and> pixelToLatLng64 4 4 ((27, - 98), (28, - 97)) (1, 1) = Some (111 / 4, - (391 / 4))
   \<and> normalizedPosition64 ((27, - 98), (28, - 97)) (111 / 4, - (391 / 4)) = Some (1 / 4, 1 / 4)
   \<and> (\<exists>lat lng normX normY.
        pixelToLatLng64 4 4 ((27, - 98), (28, - 97)) (1, 1) = Some (lat, lng)
      \<and> lng = add64 (- 98) (mul64 (sub64 (- 97) (- 98)) (div64 1 4))
      \<and> lat = sub64 28 (mul64 (sub64 28 27) (div64 1 4))
      \<and> normalizedPosition64 ((27, - 98), (28, - 97)) (lat, lng) = Some (normX, normY)
      \<and> \<bar>normX - 1 / 4\<bar> \<le> (1 + \<bar>- 98\<bar> / (- 97 - (- 98))) / 2 ^ 50
      \<and> \<bar>normY - 1 / 4\<bar> \<le> (1 + \<bar>28\<bar> / (28 - 27)) / 2 ^ 50)"
proof -
  have h: "(0 :: real) < 4" "(0 :: real) \<le> 1" "(1 :: real) \<le> 4" "(27 :: real) < 28"
    "(- 98 :: real) < - 97" by simp_all
  note t = pixelsToLatLng_roundtrip [OF h(1) h(1) h(2) h(3) h(2) h(3) h(4) h(5)]
  from h t cityBounds_roundtrip [unfolded cityBounds_def] show ?thesis by blast
qed

text \<open>
  C6 as stated fails: the bounds \<open>[[50, 100], [50.000000000000014, 100.00000000000003]]\<close>
  are binary64 values and not degenerate, and for an image of 100 by 100 pixels the pixel
  \<open>(25, 25)\<close> is converted to the north-west corner of the bounds, whose normalized position
  is \<open>(0, 0)\<close> and not \<open>(1/4, 1/4)\<close>: the round trip ends at pixel \<open>(0, 0)\<close>.
\<close>

theorem pixelsToLatLng_roundtrip_narrow:
  "fst (fst narrowBounds) < fst (snd narrowBounds)
   \<and> snd (fst narrowBounds) < snd (snd narrowBounds)
   \<and> round64 50 = 50 \<and> round64 100 = 100 \<and> round64 25 = 25
   \<and> round64 (50 + 1 / 2 ^ 46) = 50 + 1 / 2 ^ 46
   \<and> round64 (100 + 1 / 2 ^ 45) = 100 + 1 / 2 ^ 45
   \<and> pixelToLatLng64 100 100 narrowBounds (25, 25) = Some (50 + 1 / 2 ^ 46, 100)
   \<and> normalizedPosition64 narrowBounds (50 + 1 / 2 ^ 46, 100) = Some (0, 0)
   \<and> (25 :: real) / 100 = 1 / 4"
proof -
  have nd: "fst (fst narrowBounds) < fst (snd narrowBounds)"
    "snd (fst narrowBounds) < snd (snd narrowBounds)"
    by (simp_all add: narrowBounds_def)
  have q: "div64 25 100 = 1 / 4"
    using round64_inv_pow2 [of 2] by (simp add: div64_def)
  have lngRange: "sub64 (100 + 1 / 2 ^ 45) 100 = 1 / 2 ^ 45"
    using round64_inv_pow2 [of 45] by (simp add: sub64_def)
  have latRange: "sub64 (50 + 1 / 2 ^ 46) 50 = 1 / 2 ^ 46"
    using round64_inv_pow2 [of 46] by (simp add: sub64_def)
  have mx: "mul64 (1 / 2 ^ 45) (1 / 4) = 1 / 2 ^ 47"
    using round64_inv_pow2 [of 47] by (simp add: mul64_def)
  have my: "mul64 (1 / 2 ^ 46) (1 / 4) = 1 / 2 ^ 48"
    using round64_inv_pow2 [of 48] by (simp add: mul64_def)
  have lng: "add64 100 (1 / 2 ^ 47) = 100"
    unfolding add64_def by (rule round64_west_tie)
  have lat: "sub64 (50 + 1 / 2 ^ 46) (1 / 2 ^ 48) = 50 + 1 / 2 ^ 46"
    unfolding sub64_def by (rule round64_north_tie)
  have z: "sub64 100 100 = 0" "sub64 (50 + 1 / 2 ^ 46) (50 + 1 / 2 ^ 46) = 0"
    by (simp_all add: sub64_def round64_zero)
  have dz: "div64 0 (1 / 2 ^ 45) = 0" "div64 0 (1 / 2 ^ 46) = 0"
    by (simp_all add: div64_def round64_zero)
  have p: "pixelToLatLng64 100 100 narrowBounds (25, 25) = Some (50 + 1 / 2 ^ 46, 100)"
    unfolding pixelToLatLng64_def narrowBounds_def Let_def
    by (simp only: prod.case q lngRange latRange mx my lng lat) simp
  have n: "normalizedPosition64 narrowBounds (50 + 1 / 2 ^ 46, 100) = Some (0, 0)"
    unfolding normalizedPosition64_def narrowBounds_def Let_def
    by (simp only: prod.case lngRange latRange z dz) simp
  from nd narrowBounds_binary64 p n show ?thesis by simp
qed

section \<open>Transform engine: previews and commit\<close>

lemma applyScaleToZone_frame:
  "applyScaleToZone m zoneId f = m\<lparr>overlays := overlays (applyScaleToZone m zoneId f)\<rparr>"
  by (simp add: applyScaleToZone_def Let_def split: option.splits)

lemma applyRotationToZone_frame:
  "applyRotationToZone m zoneId d = m\<lparr>overlays := overlays (applyRotationToZone m zoneId d)\<rparr>"
  by (simp add: applyRotationToZone_def split: option.splits)

lemma onlyOverlays_refl: "onlyOverlays m m"
  by (simp add: onlyOverlays_def)

lemma onlyOverlays_trans: "onlyOverlays a b \<Longrightarrow> onlyOverlays b c \<Longrightarrow> onlyOverlays a c"
  unfolding onlyOverlays_def
  by (metis manager.surjective manager.update_convs(2))

lemma onlyOverlays_fold:
  assumes "\<And>x m. onlyOverlays m (f x m)"
  shows "onlyOverlays m (fold f xs m)"
proof (induction xs arbitrary: m)
  case Nil
  show ?case by (simp add: onlyOverlays_refl)
next
  case (Cons x xs)
  have "onlyOverlays m (f x m)" by (rule assms)
  moreover have "onlyOverlays (f x m) (fold f xs (f x m))" by (rule Cons.IH)
  ultimately show ?case using onlyOverlays_trans by simp
qed

lemma onlyOverlays_scale: "onlyOverlays m (applyScaleToZone m zoneId f)"
  unfolding onlyOverlays_def by (rule applyScaleToZone_frame)

lemma onlyOverlays_rotate: "onlyOverlays m (applyRotationToZone m zoneId d)"
  unfolding onlyOverlays_def by (rule applyRotationToZone_frame)

lemma onlyOverlays_scaleAll: "onlyOverlays m (applyScaleToAllZones m f)"
  unfolding applyScaleToAllZones_def
  by (rule onlyOverlays_fold) (rule onlyOverlays_scale)

lemma restoreAnchors_same:
  "\<forall>(zoneId, position) \<in> set ps. anchors m zoneId = Some position \<Longrightarrow> restoreAnchors ps m = m"
  by (induction ps arbitrary: m) auto

lemma onlyOverlays_anchors: "onlyOverlays m m' \<Longrightarrow> anchors m' = anchors m"
  unfolding onlyOverlays_def by (metis manager.select_convs(3) manager.surjective manager.update_convs(2))

lemma onlyOverlays_rotateAll: "onlyOverlays m (applyRotationToAllZones m d)"
proof -
  let ?rot = "fold (\<lambda>z m'. applyRotationToZone m' (zone_id z) d) (zones m) m"
  let ?ps = "concat (map (\<lambda>z. case anchors m (zone_id z) of None \<Rightarrow> []
                               | Some position \<Rightarrow> [(zone_id z, position)]) (zones m))"
  have r: "onlyOverlays m ?rot"
    by (rule onlyOverlays_fold) (rule onlyOverlays_rotate)
  then have "anchors ?rot = anchors m" by (rule onlyOverlays_anchors)
  then have "\<forall>(zoneId, position) \<in> set ?ps. anchors ?rot zoneId = Some position"
    by (auto split: option.splits)
  then have "restoreAnchors ?ps ?rot = ?rot" by (rule restoreAnchors_same)
  with r show ?thesis by (simp add: applyRotationToAllZones_def Let_def)
qed

lemma onlyOverlays_preview: "onlyOverlays m (applyPreview p m)"
  by (cases p) (simp_all add: onlyOverlays_scale onlyOverlays_rotate onlyOverlays_scaleAll onlyOverlays_rotateAll)

text \<open>
  C2.  A sequence of preview operations (scale or rotation of one zone or of all zones, with
  any factor and any angle) leaves the zone list, and with it the persisted bounds of every
  zone, and the cached base sizes as they were: the manager after the previews differs from
  the manager before in its overlays only.
\<close>

theorem previews_keep_persisted_geometry:
  "zones (applyPreviews ops m) = zones m
   \<and> baseZoneSizes (applyPreviews ops m) = baseZoneSizes m
   \<and> applyPreviews ops m = m\<lparr>overlays := overlays (applyPreviews ops m)\<rparr>"
proof -
  have "onlyOverlays m (applyPreviews ops m)"
    unfolding applyPreviews_def by (rule onlyOverlays_fold) (rule onlyOverlays_preview)
  then have e: "applyPreviews ops m = m\<lparr>overlays := overlays (applyPreviews ops m)\<rparr>"
    by (simp add: onlyOverlays_def)
  have "zones (m\<lparr>overlays := overlays (applyPreviews ops m)\<rparr>) = zones m"
    and "baseZoneSizes (m\<lparr>overlays := overlays (applyPreviews ops m)\<rparr>) = baseZoneSizes m"
    by simp_all
  with e show ?thesis by metis
qed

theorem previews_keep_persisted_geometry_witness:
  "zones (applyPreviews [ScaleZone 2 (1 / 2), RotateZone 2 90] demoManager) = [zoneA, zoneB]
   \<and> baseZoneSizes (applyPreviews [ScaleZone 2 (1 / 2), RotateZone 2 90] demoManager) 2
        = Some \<lparr>latSize = 10, lngSize = 10\<rparr>
   \<and> map_option getBounds (overlays (applyPreviews [ScaleZone 2 (1 / 2), RotateZone 2 90] demoManager) 2)
        = Some ((15 / 2, 15 / 2), (25 / 2, 25 / 2))"
proof -
  have "map_option getBounds (overlays (applyPreviews [ScaleZone 2 (1 / 2), RotateZone 2 90] demoManager) 2)
        = Some ((15 / 2, 15 / 2), (25 / 2, 25 / 2))"
    by (simp add: applyPreviews_def applyScaleToZone_def applyRotationToZone_def demoManager_def
        overlayB_def Let_def)
  with previews_keep_persisted_geometry [of "[ScaleZone 2 (1 / 2), RotateZone 2 90]" demoManager]
  show ?thesis by (simp add: demoManager_def)
qed

lemma addZoneOverlay_keeps:
  "zones (addZoneOverlay e m z) = zones m \<and> anchors (addZoneOverlay e m z) = anchors m \<and>
   currentScale (addZoneOverlay e m z) = currentScale m \<and>
   (baseZoneSizes m i = Some b \<longrightarrow> baseZoneSizes (addZoneOverlay e m z) i = Some b) \<and>
   (overlays m i \<noteq> None \<longrightarrow> overlays (addZoneOverlay e m z) i \<noteq> None)"
  by (auto simp: addZoneOverlay_def Let_def split: prod.splits option.splits)

lemma grows_refl: "grows i m m"
  by (auto simp: grows_def split: option.splits)

lemma grows_trans: "grows i a b \<Longrightarrow> grows i b c \<Longrightarrow> grows i a c"
  by (auto simp: grows_def split: option.splits)

lemma grows_fold:
  assumes "\<And>x m. grows i m (f x m)"
  shows "grows i m (fold f xs m)"
proof (induction xs arbitrary: m)
  case Nil
  show ?case by (simp add: grows_refl)
next
  case (Cons x xs)
  have "grows i m (f x m)" by (rule assms)
  moreover have "grows i (f x m) (fold f xs (f x m))" by (rule Cons.IH)
  ultimately show ?case using grows_trans by simp
qed

lemma grows_addZoneOverlay: "grows i m (addZoneOverlay e m z)"
  using addZoneOverlay_keeps[of e m z i] by (auto simp: grows_def split: option.splits)

lemma grows_displayZones: "grows i m (displayZones e m)"
proof (cases "mapReady e")
  case False
  then show ?thesis by (simp add: displayZones_def grows_refl)
next
  case True
  let ?rm = "\<lambda>z m'. if zone_id z \<notin> set (checkedZoneIds e) then
                (case overlays m' (zone_id z) of
                   None \<Rightarrow> m'
                 | Some ov \<Rightarrow> m'\<lparr>overlays := (overlays m')(zone_id z \<mapsto> ov\<lparr>onMap := False\<rparr>)\<rparr>)
              else m'"
  let ?add = "\<lambda>z m'. if zone_id z \<in> set (checkedZoneIds e) then
                (case overlays m' (zone_id z) of
                   None \<Rightarrow> addZoneOverlay e m' z
                 | Some ov \<Rightarrow> if \<not> onMap ov then addZoneOverlay e m' z else m')
              else m'"
  have a: "grows i m' (?rm z m')" for z m'
    by (auto simp: grows_def split: option.splits)
  have b: "grows i m' (?add z m')" for z m'
    by (auto simp: grows_refl grows_addZoneOverlay split: option.splits)
  have 1: "grows i m (fold ?rm (zones m) m)"
    by (rule grows_fold) (rule a)
  have 2: "grows i (fold ?rm (zones m) m) (fold ?add (zones m) (fold ?rm (zones m) m))"
    by (rule grows_fold) (rule b)
  from 1 2 have "grows i m (fold ?add (zones m) (fold ?rm (zones m) m))"
    by (rule grows_trans)
  with True show ?thesis by (simp add: displayZones_def Let_def)
qed

lemma find_findIndex:
  "List.find P xs = Some x \<Longrightarrow> \<exists>k. findIndex P xs = Some k \<and> k < length xs \<and>
      List.find P (xs[k := y]) = (if P y then Some y else List.find P (drop (Suc k) xs))
      \<and> (P y \<longrightarrow> List.find P (xs[k := y]) = Some y)"
proof (induction xs)
  case Nil
  then show ?case by simp
next
  case (Cons a xs)
  show ?case
  proof (cases "P a")
    case True
    then show ?thesis by simp
  next
    case False
    with Cons.prems have "List.find P xs = Some x" by simp
    from Cons.IH[OF this] obtain k where k: "findIndex P xs = Some k" "k < length xs"
      "List.find P (xs[k := y]) = (if P y then Some y else List.find P (drop (Suc k) xs))" by blast
    with False show ?thesis by simp
  qed
qed

lemma find_backendUpdate:
  "\<exists>z' \<in> set zs. zone_id z' = zoneId \<Longrightarrow>
   \<exists>z'. List.find (\<lambda>z. zone_id z = zoneId) (backendUpdate zs zoneId d) = Some z' \<and> bounds z' = bounds d"
proof (induction zs)
  case Nil
  then show ?case by simp
next
  case (Cons a zs)
  then show ?case by (cases "zone_id a = zoneId") (auto simp: backendUpdate_def)
qed

text \<open>
  C1.  Take a zone of the manager that the backend holds, with an anchor at \<open>(lat, lng)\<close> and
  a cached base size \<open>bs\<close>, and let \<open>f\<close> be the live scale factor.  A save that goes through
  (the save button is in the page and the backend accepts the update) replaces the bounds of
  the zone, in the manager and in the backend, by the rectangle of size \<open>bs * f\<close> whose centre
  is the anchor, replaces the cached base size by \<open>bs * f\<close> and resets the scale to 100.  A
  scale of 100 percent applied afterwards displays exactly the committed bounds.
\<close>

theorem saveZoneTransform_commits:
  assumes zone: "List.find (\<lambda>z. zone_id z = zoneId) (zones (fzm s)) = Some z"
    and held: "\<exists>z' \<in> set (stored s). zone_id z' = zoneId"
    and btn: "saveBtn e"
    and upd: "updateSucceeds e"
    and anchor: "anchors (fzm s) zoneId = Some (lat, lng)"
    and base: "baseZoneSizes (fzm s) zoneId = Some bs"
    and f: "f = currentScale (fzm s) / 100"
    and committed: "committed = ((lat - latSize bs * f / 2, lng - lngSize bs * f / 2),
                                 (lat + latSize bs * f / 2, lng + lngSize bs * f / 2))"
    and save: "saveZoneTransform e s zoneId = (r, s')"
  shows "r = None
    \<and> (\<exists>z'. List.find (\<lambda>z. zone_id z = zoneId) (zones (fzm s')) = Some z' \<and> bounds z' = committed)
    \<and> (\<exists>z'. List.find (\<lambda>z. zone_id z = zoneId) (stored s') = Some z' \<and> bounds z' = committed)
    \<and> fst (snd committed) - fst (fst committed) = latSize bs * f
    \<and> snd (snd committed) - snd (fst committed) = lngSize bs * f
    \<and> (fst (fst committed) + fst (snd committed)) / 2 = lat
    \<and> (snd (fst committed) + snd (snd committed)) / 2 = lng
    \<and> baseZoneSizes (fzm s') zoneId = Some \<lparr>latSize = latSize bs * f, lngSize = lngSize bs * f\<rparr>
    \<and> currentScale (fzm s') = 100
    \<and> (overlays (fzm s) zoneId = None \<or>
        overlays (applyScaleToZone (fzm s') zoneId (currentScale (fzm s') / 100)) zoneId \<noteq> None)
    \<and> (\<forall>ov. overlays (applyScaleToZone (fzm s') zoneId (currentScale (fzm s') / 100)) zoneId = Some ov
           \<longrightarrow> getBounds ov = committed)"
proof -
  define d where "d = \<lparr>zone_id = zoneId, name = name z, image_path = image_path z,
      bounds = committed, opacity = Some (orElse (opacity z) 0.6),
      rotation = Some (currentRotation (fzm s)), perimeter = None\<rparr>"
  define zs1 where "zs1 = (case findIndex (\<lambda>z. zone_id z = zoneId) (zones (fzm s)) of
                    None \<Rightarrow> zones (fzm s)
                  | Some zoneIndex \<Rightarrow> (zones (fzm s))[zoneIndex := d\<lparr>zone_id := zoneId\<rparr>])"
  define m2 where "m2 = (fzm s)\<lparr>zones := zs1, baseZoneSizes := (baseZoneSizes (fzm s))(zoneId \<mapsto>
                      \<lparr>latSize = latSize bs * f, lngSize = lngSize bs * f\<rparr>)\<rparr>"
  define s2 where "s2 = s\<lparr>stored := backendUpdate (stored s) zoneId d, fzm := m2\<rparr>"
  define s3 where "s3 = loadZones e s2"
  have u: "updateZone e s zoneId d = Inr (s\<lparr>stored := backendUpdate (stored s) zoneId d,
               fzm := (fzm s)\<lparr>zones := zs1\<rparr>\<rparr>)"
    using upd by (simp add: updateZone_def zs1_def)
  have res: "saveZoneTransform e s zoneId =
      (None, s3\<lparr>fzm := (fzm s3)\<lparr>currentScale := 100, selectedZoneId := Some zoneId\<rparr>\<rparr>)"
    using zone btn anchor base u
    by (simp add: saveZoneTransform_def Let_def f committed d_def s3_def s2_def m2_def)
  with save have r: "r = None"
    and s': "s' = s3\<lparr>fzm := (fzm s3)\<lparr>currentScale := 100, selectedZoneId := Some zoneId\<rparr>\<rparr>"
    by simp_all
  have local: "\<exists>z'. List.find (\<lambda>z. zone_id z = zoneId) zs1 = Some z' \<and> bounds z' = committed"
  proof -
    from find_findIndex[OF zone, of "d\<lparr>zone_id := zoneId\<rparr>"]
    obtain k where "findIndex (\<lambda>z. zone_id z = zoneId) (zones (fzm s)) = Some k"
      and "List.find (\<lambda>z. zone_id z = zoneId) ((zones (fzm s))[k := d\<lparr>zone_id := zoneId\<rparr>])
           = Some (d\<lparr>zone_id := zoneId\<rparr>)"
      by auto
    then show ?thesis by (simp add: zs1_def d_def)
  qed
  have remote: "\<exists>z'. List.find (\<lambda>z. zone_id z = zoneId) (backendUpdate (stored s) zoneId d) = Some z'
       \<and> bounds z' = committed"
    using find_backendUpdate[OF held, of d] by (simp add: d_def)
  have st: "stored s3 = backendUpdate (stored s) zoneId d"
    by (simp add: s3_def s2_def loadZones_def)
  have g: "grows zoneId m2 (fzm s3) \<or> grows zoneId (m2\<lparr>zones := stored s2\<rparr>) (fzm s3)"
    by (simp add: s3_def loadZones_def s2_def grows_refl grows_displayZones)
  have zs3: "zones (fzm s3) = zs1 \<or> zones (fzm s3) = backendUpdate (stored s) zoneId d"
    using g by (auto simp: grows_def m2_def s2_def)
  have an3: "anchors (fzm s3) zoneId = Some (lat, lng)"
    using g anchor by (auto simp: grows_def m2_def s2_def)
  have b3: "baseZoneSizes (fzm s3) zoneId = Some \<lparr>latSize = latSize bs * f, lngSize = lngSize bs * f\<rparr>"
    using g by (auto simp: grows_def m2_def s2_def)
  have o3: "overlays (fzm s) zoneId = None \<or> overlays (fzm s3) zoneId \<noteq> None"
    using g by (auto simp: grows_def m2_def s2_def)
  have c1: "\<exists>z'. List.find (\<lambda>z. zone_id z = zoneId) (zones (fzm s')) = Some z' \<and> bounds z' = committed"
    using zs3 local remote by (auto simp: s')
  have c2: "\<exists>z'. List.find (\<lambda>z. zone_id z = zoneId) (stored s') = Some z' \<and> bounds z' = committed"
    using remote st by (simp add: s')
  have c3: "baseZoneSizes (fzm s') zoneId = Some \<lparr>latSize = latSize bs * f, lngSize = lngSize bs * f\<rparr>"
    using b3 by (simp add: s')
  have c4: "currentScale (fzm s') = 100" by (simp add: s')
  have c5: "overlays (fzm s) zoneId = None \<or>
        overlays (applyScaleToZone (fzm s') zoneId (currentScale (fzm s') / 100)) zoneId \<noteq> None"
    using o3 an3 b3 by (auto simp: s' applyScaleToZone_def Let_def split: option.splits)
  have c6: "\<forall>ov. overlays (applyScaleToZone (fzm s') zoneId (currentScale (fzm s') / 100)) zoneId = Some ov
           \<longrightarrow> getBounds ov = committed"
    using an3 b3 by (auto simp: s' applyScaleToZone_def Let_def committed split: option.splits)
  have c7: "fst (snd committed) - fst (fst committed) = latSize bs * f
    \<and> snd (snd committed) - snd (fst committed) = lngSize bs * f
    \<and> (fst (fst committed) + fst (snd committed)) / 2 = lat
    \<and> (snd (fst committed) + snd (snd committed)) / 2 = lng"
    by (simp add: committed)
  from r c1 c2 c3 c4 c5 c6 c7 show ?thesis by blast
qed

theorem saveZoneTransform_commits_witness:
  "fst (saveZoneTransform demoEnv demoSession 2) = None
   \<and> baseZoneSizes (fzm (snd (saveZoneTransform demoEnv demoSession 2))) 2
        = Some \<lparr>latSize = 5, lngSize = 5\<rparr>
   \<and> currentScale (fzm (snd (saveZoneTransform demoEnv demoSession 2))) = 100
   \<and> (\<exists>z'. List.find (\<lambda>z. zone_id z = 2) (zones (fzm (snd (saveZoneTransform demoEnv demoSession 2))))
              = Some z' \<and> bounds z' = ((15 / 2, 15 / 2), (25 / 2, 25 / 2)))"
proof -
  have zone: "List.find (\<lambda>z. zone_id z = 2) (zones (fzm demoSession)) = Some zoneB"
    by (simp add: demoSession_def demoManager_def zoneA_def zoneB_def)
  have held: "\<exists>z' \<in> set (stored demoSession). zone_id z' = 2"
    by (simp add: demoSession_def zoneB_def)
  have btn: "saveBtn demoEnv" and upd: "updateSucceeds demoEnv"
    by (simp_all add: demoEnv_def)
  have anchor: "anchors (fzm demoSession) 2 = Some (10, 10)"
    by (simp add: demoSession_def demoManager_def)
  have base: "baseZoneSizes (fzm demoSession) 2 = Some \<lparr>latSize = 10, lngSize = 10\<rparr>"
    by (simp add: demoSession_def demoManager_def)
  have f: "1 / 2 = currentScale (fzm demoSession) / 100"
    by (simp add: demoSession_def demoManager_def)
  have committed: "((15 / 2, 15 / 2), (25 / 2, 25 / 2)) =
      ((10 - latSize \<lparr>latSize = 10, lngSize = 10\<rparr> * (1 / 2) / 2,
        10 - lngSize \<lparr>latSize = 10, lngSize = 10\<rparr> * (1 / 2) / 2),
       (10 + latSize \<lparr>latSize = 10, lngSize = 10\<rparr> * (1 / 2) / 2,
        10 + lngSize \<lparr>latSize = 10, lngSize = 10\<rparr> * (1 / 2) / 2))"
    by simp
  have save: "saveZoneTransform demoEnv demoSession 2 =
      (fst (saveZoneTransform demoEnv demoSession 2), snd (saveZoneTransform demoEnv demoSession 2))"
    by simp
  from saveZoneTransform_commits [OF zone held btn upd anchor base f committed save]
  show ?thesis by simp
qed

section \<open>Content bounds\<close>

lemma set_scanOrder: "set (scanOrder im) = {(x, y). x < width im \<and> y < height im}"
  by (auto simp: scanOrder_def)

lemma scanImage_scanOrder:
  "scanImage im = fold (\<lambda>(x, y) st. scanPixel im y x st) (scanOrder im) (width im, height im, 0, 0, False)"
proof -
  have inner: "fold (\<lambda>x st'. scanPixel im y x st') xs st
      = fold (\<lambda>(x, y) st. scanPixel im y x st) (map (\<lambda>x. (x, y)) xs) st" for y xs st
    by (induction xs arbitrary: st) simp_all
  have outer: "fold (\<lambda>y st. fold (\<lambda>x st'. scanPixel im y x st') ws st) ys st0
      = fold (\<lambda>(x, y) st. scanPixel im y x st) (concat (map (\<lambda>y. map (\<lambda>x. (x, y)) ws) ys)) st0"
    for ws ys st0
    by (induction ys arbitrary: st0) (simp_all add: inner)
  show ?thesis by (simp add: scanImage_def scanOrder_def outer)
qed

lemma fold_scanPixel:
  "fold (\<lambda>(x, y) st. scanPixel im y x st) ps (a, b, c, d, f) =
     (let cs = filter (\<lambda>(x, y). isColored im y x) ps in
      (fold min (map fst cs) a, fold min (map snd cs) b,
       fold max (map fst cs) c, fold max (map snd cs) d, f \<or> cs \<noteq> []))"
proof (induction ps arbitrary: a b c d f)
  case Nil
  show ?case by simp
next
  case (Cons p ps)
  obtain x y where p: "p = (x, y)" by (cases p)
  show ?case
  proof (cases "isColored im y x")
    case True
    have "scanPixel im y x (a, b, c, d, f) = (min x a, min y b, max x c, max y d, True)"
      using True by (auto simp: scanPixel_def min_def max_def)
    then show ?thesis using True p Cons.IH by (simp add: Let_def)
  next
    case False
    then have "scanPixel im y x (a, b, c, d, f) = (a, b, c, d, f)"
      by (simp add: scanPixel_def)
    then show ?thesis using False p Cons.IH by (simp add: Let_def)
  qed
qed

lemma fold_min_Min: "fold min xs (a::nat) = Min (insert a (set xs))"
  using Min.set_eq_fold[of a xs] by simp

lemma fold_max_Max: "fold max xs (a::nat) = Max (insert a (set xs))"
  using Max.set_eq_fold[of a xs] by simp

lemma Min_insert_bound:
  assumes "finite S" and "S \<noteq> {}" and "\<forall>x \<in> S. x < (a::nat)"
  shows "Min (insert a S) = Min S"
proof -
  have "Min S \<in> S" using assms(1,2) by (rule Min_in)
  then have "Min S < a" using assms(3) by blast
  moreover have "Min (insert a S) = min a (Min S)" using assms(1,2) by (rule Min_insert)
  ultimately show ?thesis by (simp add: min_def)
qed

lemma set_colored_scanOrder:
  "set (filter (\<lambda>(x, y). isColored im y x) (scanOrder im)) = coloredPixels im"
  by (auto simp: set_scanOrder coloredPixels_def)

lemma finite_coloredPixels: "finite (coloredPixels im)"
  using set_colored_scanOrder[of im, symmetric] by (metis List.finite_set)

lemma scanImage_empty:
  assumes "coloredPixels im = {}"
  shows "scanImage im = (width im, height im, 0, 0, False)"
proof -
  have "filter (\<lambda>(x, y). isColored im y x) (scanOrder im) = []"
    using assms set_colored_scanOrder[of im] by (metis set_empty)
  then show ?thesis by (simp add: scanImage_scanOrder fold_scanPixel)
qed

lemma scanImage_found:
  assumes "coloredPixels im \<noteq> {}"
  shows "scanImage im = (Min (fst ` coloredPixels im), Min (snd ` coloredPixels im),
                         Max (fst ` coloredPixels im), Max (snd ` coloredPixels im), True)"
proof -
  let ?cs = "filter (\<lambda>(x, y). isColored im y x) (scanOrder im)"
  have s: "set ?cs = coloredPixels im" by (rule set_colored_scanOrder)
  have ne: "?cs \<noteq> []"
  proof
    assume "?cs = []"
    then have "set ?cs = {}" by (simp only: set_empty)
    with s assms show False by simp
  qed
  have fin: "finite (fst ` coloredPixels im)" "finite (snd ` coloredPixels im)"
    using finite_coloredPixels by simp_all
  have nex: "fst ` coloredPixels im \<noteq> {}" "snd ` coloredPixels im \<noteq> {}"
    using assms by simp_all
  have xs: "\<forall>x \<in> fst ` coloredPixels im. x < width im"
    and ys: "\<forall>y \<in> snd ` coloredPixels im. y < height im"
    by (auto simp: coloredPixels_def)
  have mnx: "Min (insert (width im) (fst ` coloredPixels im)) = Min (fst ` coloredPixels im)"
    using fin(1) nex(1) xs by (rule Min_insert_bound)
  have mny: "Min (insert (height im) (snd ` coloredPixels im)) = Min (snd ` coloredPixels im)"
    using fin(2) nex(2) ys by (rule Min_insert_bound)
  have mxx: "Max (insert 0 (fst ` coloredPixels im)) = Max (fst ` coloredPixels im)"
    using fin nex by simp
  have mxy: "Max (insert 0 (snd ` coloredPixels im)) = Max (snd ` coloredPixels im)"
    using fin nex by simp
  have e1: "fold min (map fst ?cs) (width im) = Min (fst ` coloredPixels im)"
    by (simp only: fold_min_Min set_map s mnx)
  have e2: "fold min (map snd ?cs) (height im) = Min (snd ` coloredPixels im)"
    by (simp only: fold_min_Min set_map s mny)
  have e3: "fold max (map fst ?cs) 0 = Max (fst ` coloredPixels im)"
    by (simp only: fold_max_Max set_map s mxx)
  have e4: "fold max (map snd ?cs) 0 = Max (snd ` coloredPixels im)"
    by (simp only: fold_max_Max set_map s mxy)
  have "scanImage im = (fold min (map fst ?cs) (width im), fold min (map snd ?cs) (height im),
        fold max (map fst ?cs) 0, fold max (map snd ?cs) 0, True)"
    using ne by (simp add: scanImage_scanOrder fold_scanPixel Let_def)
  then show ?thesis by (simp only: e1 e2 e3 e4)
qed

lemma detect_none_iff:
  "detectImageContentBounds (Some im) = None \<longleftrightarrow> coloredPixels im = {}"
proof (cases "coloredPixels im = {}")
  case True
  then show ?thesis by (simp add: detectImageContentBounds_def scanImage_empty)
next
  case False
  then show ?thesis by (simp add: detectImageContentBounds_def scanImage_found)
qed

lemma detect_some:
  "coloredPixels im \<noteq> {} \<Longrightarrow>
   detectImageContentBounds (Some im) =
     Some \<lparr>minX = real (Min (fst ` coloredPixels im)) / real (width im),
           minY = real (Min (snd ` coloredPixels im)) / real (height im),
           maxX = (real (Max (fst ` coloredPixels im)) + 1) / real (width im),
           maxY = (real (Max (snd ` coloredPixels im)) + 1) / real (height im),
           imgWidth = width im, imgHeight = height im\<rparr>"
  by (simp add: detectImageContentBounds_def scanImage_found)

lemma isColored_alpha:
  "length (data im) = 4 * width im * height im \<Longrightarrow> x < width im \<Longrightarrow> y < height im \<Longrightarrow>
   isColored im y x \<longleftrightarrow> data im ! ((y * width im + x) * 4 + 3) \<ge> 10"
proof -
  assume l: "length (data im) = 4 * width im * height im" and x: "x < width im" and y: "y < height im"
  have "y * width im + x < height im * width im"
  proof -
    have "y * width im + x < y * width im + width im" using x by simp
    also have "\<dots> = Suc y * width im" by simp
    also have "\<dots> \<le> height im * width im" using y by (intro mult_le_mono1) simp
    finally show ?thesis .
  qed
  then have "Suc (y * width im + x) \<le> height im * width im" by simp
  then have "4 * Suc (y * width im + x) \<le> 4 * (height im * width im)" by (rule mult_le_mono2)
  then have "(y * width im + x) * 4 + 3 < length (data im)" using l by (simp add: mult.commute)
  then show ?thesis by (simp add: isColored_def alphaAt_def Let_def)
qed

lemma concat_uniform_length:
  "\<forall>xs \<in> set xss. length xs = k \<Longrightarrow> length (concat xss) = length xss * k"
  by (induction xss) simp_all

lemma concat_uniform_nth:
  "\<forall>xs \<in> set xss. length xs = k \<Longrightarrow> i < length xss \<Longrightarrow> j < k \<Longrightarrow>
   concat xss ! (i * k + j) = xss ! i ! j"
proof (induction xss arbitrary: i)
  case Nil
  then show ?case by simp
next
  case (Cons xs xss)
  show ?case
  proof (cases i)
    case 0
    with Cons.prems show ?thesis by (simp add: nth_append)
  next
    case (Suc n)
    with Cons.prems have "concat xss ! (n * k + j) = xss ! n ! j"
      by (intro Cons.IH) simp_all
    moreover have "length xs = k" using Cons.prems by simp
    ultimately show ?thesis using Suc by (simp add: nth_append)
  qed
qed

lemma squareRaster_length: "length (data (squareRaster hi)) = 4 * width (squareRaster hi) * height (squareRaster hi)"
proof -
  have row: "length (concat (map (\<lambda>x. [0, 0, 0, squareAlpha hi x y]) [0..<100])) = 400" for y
    using concat_uniform_length[of "map (\<lambda>x. [0, 0, 0, squareAlpha hi x y]) [0..<100]" 4]
    by simp
  have "length (concat (map (\<lambda>y. concat (map (\<lambda>x. [0, 0, 0, squareAlpha hi x y]) [0..<100])) [0..<100]))
      = 100 * 400"
    using concat_uniform_length[of "map (\<lambda>y. concat (map (\<lambda>x. [0, 0, 0, squareAlpha hi x y]) [0..<100])) [0..<100]" 400]
      row by simp
  then show ?thesis by (simp add: squareRaster_def)
qed

lemma squareRaster_alpha:
  assumes "x < 100" and "y < 100"
  shows "data (squareRaster hi) ! ((y * 100 + x) * 4 + 3) = squareAlpha hi x y"
proof -
  let ?row = "\<lambda>y. concat (map (\<lambda>x. [0, 0, 0, squareAlpha hi x y]) [0..<100])"
  have rowlen: "length (?row y') = 400" for y'
    using concat_uniform_length[of "map (\<lambda>x. [0, 0, 0, squareAlpha hi x y']) [0..<100]" 4]
    by simp
  have inrow: "x * 4 + 3 < 400" using assms(1) by simp
  have "concat (map ?row [0..<100]) ! (y * 400 + (x * 4 + 3)) = map ?row [0..<100] ! y ! (x * 4 + 3)"
    using rowlen assms(2) inrow by (intro concat_uniform_nth) simp_all
  also have "\<dots> = ?row y ! (x * 4 + 3)" using assms(2) by simp
  also have "\<dots> = map (\<lambda>x. [0, 0, 0, squareAlpha hi x y]) [0..<100] ! x ! 3"
    using assms(1) by (intro concat_uniform_nth) simp_all
  also have "\<dots> = squareAlpha hi x y" using assms(1) by simp
  finally have "concat (map ?row [0..<100]) ! (y * 400 + (x * 4 + 3)) = squareAlpha hi x y" .
  note F = this
  have idx: "(y * 100 + x) * 4 + 3 = y * 400 + (x * 4 + 3)" by simp
  have d: "data (squareRaster hi) = concat (map ?row [0..<100])" by (simp add: squareRaster_def)
  show ?thesis by (simp only: d idx F)
qed

lemma squareRaster_colored:
  "coloredPixels (squareRaster hi) = {(x, y). 25 \<le> x \<and> x \<le> hi \<and> x < 100 \<and> 25 \<le> y \<and> y \<le> hi \<and> y < 100}"
proof -
  have wh: "width (squareRaster hi) = 100" "height (squareRaster hi) = 100"
    by (simp_all add: squareRaster_def)
  have "isColored (squareRaster hi) y x \<longleftrightarrow> 25 \<le> x \<and> x \<le> hi \<and> 25 \<le> y \<and> y \<le> hi"
    if "x < 100" "y < 100" for x y
  proof -
    have "isColored (squareRaster hi) y x \<longleftrightarrow> squareAlpha hi x y \<ge> 10"
      using isColored_alpha[OF squareRaster_length, of x hi y] that squareRaster_alpha[OF that, of hi]
      by (simp add: wh)
    then show ?thesis by (simp add: squareAlpha_def)
  qed
  then show ?thesis by (auto simp: coloredPixels_def wh)
qed

lemma squareRaster_detect:
  assumes "25 \<le> hi" and "hi < 100"
  shows "detectImageContentBounds (Some (squareRaster hi)) =
     Some \<lparr>minX = 25 / 100, minY = 25 / 100, maxX = (real hi + 1) / 100, maxY = (real hi + 1) / 100,
           imgWidth = 100, imgHeight = 100\<rparr>"
proof -
  have c: "coloredPixels (squareRaster hi) = {25..hi} \<times> {25..hi}"
    using assms by (auto simp: squareRaster_colored)
  have ne: "{25..hi} \<noteq> {}" using assms by simp
  have f: "fst ` coloredPixels (squareRaster hi) = {25..hi}"
    and s: "snd ` coloredPixels (squareRaster hi) = {25..hi}"
    using ne by (simp_all add: c)
  have "coloredPixels (squareRaster hi) \<noteq> {}" using ne c by simp
  from detect_some[OF this]
  have "detectImageContentBounds (Some (squareRaster hi)) =
     Some \<lparr>minX = real (Min {25..hi}) / real (width (squareRaster hi)),
           minY = real (Min {25..hi}) / real (height (squareRaster hi)),
           maxX = (real (Max {25..hi}) + 1) / real (width (squareRaster hi)),
           maxY = (real (Max {25..hi}) + 1) / real (height (squareRaster hi)),
           imgWidth = width (squareRaster hi), imgHeight = height (squareRaster hi)\<rparr>"
    by (simp only: f s)
  moreover have "width (squareRaster hi) = 100" "height (squareRaster hi) = 100"
    by (simp_all add: squareRaster_def)
  moreover have "Min {25..hi} = 25" using assms(1) by (intro Min_eqI) simp_all
  moreover have "Max {25..hi} = hi" using assms(1) by (intro Max_eqI) simp_all
  ultimately show ?thesis by simp
qed

text \<open>
  C5.  A pixel of the buffer is colored exactly when its alpha byte is at least 10.  The
  detector returns \<^verbatim>\<open>null\<close> for a readable raster exactly when no pixel is colored, and
  otherwise the rectangle from the least colored column and row to the greatest colored
  column and row plus one, divided by the width and the height.  On the raster of 100 by 100
  pixels with an opaque square from pixel 25 to pixel 74 it returns 0.25 and 0.75; with the
  square from pixel 25 to pixel 75 it returns 0.25 and 0.76, which is within 1/100 of 0.75.
\<close>

theorem detectImageContentBounds_tight:
  "(length (data im) = 4 * width im * height im \<and> x < width im \<and> y < height im \<longrightarrow>
      (isColored im y x \<longleftrightarrow> data im ! ((y * width im + x) * 4 + 3) \<ge> 10))
   \<and> (detectImageContentBounds (Some im) = None \<longleftrightarrow> coloredPixels im = {})
   \<and> (coloredPixels im \<noteq> {} \<longrightarrow>
        detectImageContentBounds (Some im) =
          Some \<lparr>minX = real (Min (fst ` coloredPixels im)) / real (width im),
                minY = real (Min (snd ` coloredPixels im)) / real (height im),
                maxX = (real (Max (fst ` coloredPixels im)) + 1) / real (width im),
                maxY = (real (Max (snd ` coloredPixels im)) + 1) / real (height im),
                imgWidth = width im, imgHeight = height im\<rparr>)
   \<and> detectImageContentBounds (Some (squareRaster 74)) =
        Some \<lparr>minX = 0.25, minY = 0.25, maxX = 0.75, maxY = 0.75, imgWidth = 100, imgHeight = 100\<rparr>
   \<and> detectImageContentBounds (Some (squareRaster 75)) =
        Some \<lparr>minX = 0.25, minY = 0.25, maxX = 0.76, maxY = 0.76, imgWidth = 100, imgHeight = 100\<rparr>"
proof -
  have a: "length (data im) = 4 * width im * height im \<and> x < width im \<and> y < height im \<longrightarrow>
      (isColored im y x \<longleftrightarrow> data im ! ((y * width im + x) * 4 + 3) \<ge> 10)"
    using isColored_alpha by blast
  have s74: "detectImageContentBounds (Some (squareRaster 74)) =
        Some \<lparr>minX = 0.25, minY = 0.25, maxX = 0.75, maxY = 0.75, imgWidth = 100, imgHeight = 100\<rparr>"
    using squareRaster_detect[of 74] by simp
  have s75: "detectImageContentBounds (Some (squareRaster 75)) =
        Some \<lparr>minX = 0.25, minY = 0.25, maxX = 0.76, maxY = 0.76, imgWidth = 100, imgHeight = 100\<rparr>"
    using squareRaster_detect[of 75] by simp
  from a detect_none_iff[of im] detect_some[of im] s74 s75 show ?thesis by blast
qed

theorem detectImageContentBounds_tight_witness:
  "length (data cornerRaster) = 4 * width cornerRaster * height cornerRaster
   \<and> isColored cornerRaster 0 1 \<and> \<not> isColored cornerRaster 1 1
   \<and> detectImageContentBounds (Some cornerRaster) \<noteq> None
   \<and> detectImageContentBounds (Some cornerRaster) =
        Some \<lparr>minX = 1 / 2, minY = 0, maxX = 1, maxY = 1 / 2, imgWidth = 2, imgHeight = 2\<rparr>"
proof -
  have l: "length (data cornerRaster) = 4 * width cornerRaster * height cornerRaster"
    by (simp add: cornerRaster_def)
  have a: "data cornerRaster ! ((0 * width cornerRaster + 1) * 4 + 3) \<ge> 10"
    by (simp add: cornerRaster_def)
  have b: "\<not> data cornerRaster ! ((1 * width cornerRaster + 1) * 4 + 3) \<ge> 10"
    by (simp add: cornerRaster_def)
  have w: "1 < width cornerRaster" "0 < height cornerRaster" "1 < height cornerRaster"
    by (simp_all add: cornerRaster_def)
  from detectImageContentBounds_tight [of cornerRaster 1 0] l a w
  have c: "isColored cornerRaster 0 1" by simp
  from detectImageContentBounds_tight [of cornerRaster 1 1] l b w
  have d: "\<not> isColored cornerRaster 1 1" by simp
  have "(1, 0) \<in> coloredPixels cornerRaster"
    using c w by (simp add: coloredPixels_def)
  with detectImageContentBounds_tight [of cornerRaster]
  have n: "detectImageContentBounds (Some cornerRaster) \<noteq> None" by auto
  have e: "detectImageContentBounds (Some cornerRaster) =
        Some \<lparr>minX = 1 / 2, minY = 0, maxX = 1, maxY = 1 / 2, imgWidth = 2, imgHeight = 2\<rparr>"
    by (simp add: detectImageContentBounds_def scanImage_def scanPixel_def isColored_def
        alphaAt_def cornerRaster_def upt_rec)
  from l c d n e show ?thesis by simp
qed





section \<open>Perimeter extractor: simplification and ring\<close>

lemma maxDeviation_result:
  "maxDeviation ps a b i (d0, i0) = (d, k) \<Longrightarrow>
   (d = d0 \<and> k = i0) \<or> (d0 < d \<and> i \<le> k \<and> k < i + length ps)"
proof (induction ps arbitrary: i d0 i0)
  case Nil
  then show ?case by simp
next
  case (Cons p ps)
  show ?case
  proof (cases "pointToLineDistance p a b > d0")
    case True
    with Cons.prems have "maxDeviation ps a b (Suc i) (pointToLineDistance p a b, i) = (d, k)"
      by (simp add: Let_def)
    from Cons.IH[OF this] True show ?thesis by auto
  next
    case False
    with Cons.prems have "maxDeviation ps a b (Suc i) (d0, i0) = (d, k)"
      by (simp add: Let_def)
    from Cons.IH[OF this] show ?thesis by auto
  qed
qed

lemma maxDeviation_ge:
  "d0 \<le> fst (maxDeviation ps a b i (d0, i0)) \<and>
   (\<forall>p \<in> set ps. pointToLineDistance p a b \<le> fst (maxDeviation ps a b i (d0, i0)))"
proof (induction ps arbitrary: i d0 i0)
  case Nil
  then show ?case by simp
next
  case (Cons p ps)
  show ?case
  proof (cases "pointToLineDistance p a b > d0")
    case True
    from Cons.IH[of "pointToLineDistance p a b" "Suc i" i] True show ?thesis
      by (auto simp: Let_def)
  next
    case False
    from Cons.IH[of d0 "Suc i" i0] False show ?thesis
      by (auto simp: Let_def)
  qed
qed

lemma maxDeviation_flat:
  "\<forall>p \<in> set ps. pointToLineDistance p a b \<le> d0 \<Longrightarrow> maxDeviation ps a b i (d0, i0) = (d0, i0)"
  by (induction ps arbitrary: i) (auto simp: Let_def)

lemma douglasPeucker_short: "length pts \<le> 2 \<Longrightarrow> douglasPeucker pts tol = Some pts"
  by (subst douglasPeucker.simps) simp

lemma douglasPeucker_flat:
  assumes "2 < length pts"
    and "\<forall>p \<in> set (take (length pts - 1 - 1) (drop 1 pts)).
           pointToLineDistance p (pts ! 0) (pts ! (length pts - 1)) \<le> 0"
    and "0 \<le> tol"
  shows "douglasPeucker pts tol = Some [pts ! 0, pts ! (length pts - 1)]"
proof -
  have "maxDeviation (take (length pts - 1 - 1) (drop 1 pts)) (pts ! 0) (pts ! (length pts - 1)) 1 (0, 0)
      = (0, 0)"
    using assms(2) by (intro maxDeviation_flat) simp
  then show ?thesis using assms(1,3)
    by (subst douglasPeucker.simps) (simp add: Let_def)
qed

lemma douglasPeucker_total:
  assumes "0 \<le> tol"
  shows "\<exists>r. douglasPeucker pts tol = Some r \<and> (pts \<noteq> [] \<longrightarrow> r \<noteq> []) \<and>
             (2 \<le> length pts \<longrightarrow> 2 \<le> length r)"
proof (induction "length pts" arbitrary: pts rule: less_induct)
  case less
  show ?case
  proof (cases "length pts \<le> 2")
    case True
    then show ?thesis by (simp add: douglasPeucker_short)
  next
    case False
    define e where "e = length pts - 1"
    define dev where "dev = maxDeviation (take (e - 1) (drop 1 pts)) (pts ! 0) (pts ! e) 1 (0, 0)"
    show ?thesis
    proof (cases "fst dev > tol")
      case flat: False
      then have "douglasPeucker pts tol = Some [pts ! 0, pts ! e]"
        using False by (subst douglasPeucker.simps) (simp add: Let_def e_def dev_def)
      then show ?thesis by simp
    next
      case True
      have "maxDeviation (take (e - 1) (drop 1 pts)) (pts ! 0) (pts ! e) 1 (0, 0) = (fst dev, snd dev)"
        by (simp add: dev_def)
      from maxDeviation_result[OF this] True assms
      have k: "1 \<le> snd dev" "snd dev < 1 + length (take (e - 1) (drop 1 pts))" by auto
      have len: "length (take (e - 1) (drop 1 pts)) = e - 1"
        using False by (simp add: e_def)
      have k2: "snd dev < e" using k(2) len False by (simp add: e_def)
      have l1: "length (take (snd dev + 1) pts) = snd dev + 1" using k2 by (simp add: e_def)
      have l2: "length (drop (snd dev) pts) = length pts - snd dev" by simp
      have "length (take (snd dev + 1) pts) < length pts" using l1 k2 by (simp add: e_def)
      from less[OF this] obtain left where
        left: "douglasPeucker (take (snd dev + 1) pts) tol = Some left"
          "2 \<le> length (take (snd dev + 1) pts) \<longrightarrow> 2 \<le> length left" by blast
      have "length (drop (snd dev) pts) < length pts" using k(1) False by simp
      from less[OF this] obtain right where
        right: "douglasPeucker (drop (snd dev) pts) tol = Some right"
          "2 \<le> length (drop (snd dev) pts) \<longrightarrow> 2 \<le> length right" by blast
      have ll: "2 \<le> length left" using left(2) l1 k(1) by simp
      have lr: "2 \<le> length right" using right(2) l2 k2 by (simp add: e_def)
      have "douglasPeucker pts tol = Some (butlast left @ right)"
        using False True left(1) right(1)
        by (subst douglasPeucker.simps) (simp add: Let_def e_def dev_def)
      then show ?thesis using ll lr by auto
    qed
  qed
qed

lemma douglasPeucker_split_length:
  assumes "0 \<le> tol" and "2 < length pts"
    and "tol < fst (maxDeviation (take (length pts - 1 - 1) (drop 1 pts)) (pts ! 0) (pts ! (length pts - 1)) 1 (0, 0))"
  shows "\<exists>r. douglasPeucker pts tol = Some r \<and> 3 \<le> length r"
proof -
  define e where "e = length pts - 1"
  define dev where "dev = maxDeviation (take (e - 1) (drop 1 pts)) (pts ! 0) (pts ! e) 1 (0, 0)"
  have True: "tol < fst dev" using assms(3) by (simp add: dev_def e_def)
  have "maxDeviation (take (e - 1) (drop 1 pts)) (pts ! 0) (pts ! e) 1 (0, 0) = (fst dev, snd dev)"
    by (simp add: dev_def)
  from maxDeviation_result[OF this] True assms(1)
  have k: "1 \<le> snd dev" "snd dev < 1 + length (take (e - 1) (drop 1 pts))" by auto
  have len: "length (take (e - 1) (drop 1 pts)) = e - 1"
    using assms(2) by (simp add: e_def)
  have k2: "snd dev < e" using k(2) len assms(2) by (simp add: e_def)
  have l1: "length (take (snd dev + 1) pts) = snd dev + 1" using k2 by (simp add: e_def)
  have l2: "length (drop (snd dev) pts) = length pts - snd dev" by simp
  from douglasPeucker_total[OF assms(1), of "take (snd dev + 1) pts"] obtain left where
    left: "douglasPeucker (take (snd dev + 1) pts) tol = Some left"
      "2 \<le> length (take (snd dev + 1) pts) \<longrightarrow> 2 \<le> length left" by blast
  from douglasPeucker_total[OF assms(1), of "drop (snd dev) pts"] obtain right where
    right: "douglasPeucker (drop (snd dev) pts) tol = Some right"
      "2 \<le> length (drop (snd dev) pts) \<longrightarrow> 2 \<le> length right" by blast
  have ll: "2 \<le> length left" using left(2) l1 k(1) by simp
  have lr: "2 \<le> length right" using right(2) l2 k2 by (simp add: e_def)
  have "douglasPeucker pts tol = Some (butlast left @ right)"
    using assms(2) True left(1) right(1)
    by (subst douglasPeucker.simps) (simp add: Let_def e_def dev_def)
  then show ?thesis using ll lr by simp
qed

lemma squaredLength_pos: "a \<noteq> b \<Longrightarrow> 0 < squaredLength a b"
proof -
  assume "a \<noteq> b"
  then have "fst b - fst a \<noteq> 0 \<or> snd b - snd a \<noteq> 0" by (auto simp: prod_eq_iff)
  then show ?thesis
    unfolding squaredLength_def by (auto simp: sum_squares_gt_zero_iff)
qed

lemma squaredLength_zero: "squaredLength a a = 0"
  by (simp add: squaredLength_def)

lemma pointToLineDistance_cases:
  "pointToLineDistance p a b =
     (if a = b \<or> dotProduct a b p < 0 then pointDistance p a
      else if dotProduct a b p > squaredLength a b then pointDistance p b
      else \<bar>crossProduct a b p\<bar> / sqrt (squaredLength a b))"
proof (cases "a = b")
  case True
  obtain px py x1 y1 where pa: "p = (px, py)" "a = (x1, y1)"
    by (cases p; cases a) auto
  have b: "b = (x1, y1)" using True pa by simp
  show ?thesis
    by (simp add: pa b pointToLineDistance_def pointDistance_def Let_def power2_eq_square)
next
  case False
  obtain px py x1 y1 x2 y2 where p: "p = (px, py)" "a = (x1, y1)" "b = (x2, y2)"
    by (cases p; cases a; cases b) auto
  define A B C D where "A = px - x1" and "B = py - y1" and "C = x2 - x1" and "D = y2 - y1"
  define L where "L = C * C + D * D"
  define t where "t = (A * C + B * D) / L"
  have L: "0 < L" using squaredLength_pos[OF False] by (simp add: squaredLength_def p L_def C_def D_def)
  have dot: "dotProduct a b p = A * C + B * D"
    by (simp add: dotProduct_def p A_def B_def C_def D_def)
  have sq: "squaredLength a b = L" by (simp add: squaredLength_def p L_def C_def D_def)
  have cr: "crossProduct a b p = C * B - D * A"
    by (simp add: crossProduct_def p A_def B_def C_def D_def)
  have tneg: "t < 0 \<longleftrightarrow> A * C + B * D < 0" using L by (simp add: t_def divide_less_0_iff)
  have tbig: "t > 1 \<longleftrightarrow> A * C + B * D > L" using L by (simp add: t_def)
  have unfold: "pointToLineDistance p a b =
      sqrt ((px - (if t < 0 then x1 else if t > 1 then x2 else x1 + t * C)) *
            (px - (if t < 0 then x1 else if t > 1 then x2 else x1 + t * C)) +
            (py - (if t < 0 then y1 else if t > 1 then y2 else y1 + t * D)) *
            (py - (if t < 0 then y1 else if t > 1 then y2 else y1 + t * D)))"
    using L by (simp add: pointToLineDistance_def p Let_def A_def B_def C_def D_def L_def t_def)
  have da: "pointDistance p a = sqrt ((px - x1) * (px - x1) + (py - y1) * (py - y1))"
    and db: "pointDistance p b = sqrt ((px - x2) * (px - x2) + (py - y2) * (py - y2))"
    by (simp_all add: pointDistance_def p power2_eq_square)
  show ?thesis
  proof (cases "t < 0")
    case True
    then show ?thesis using False tneg
      by (simp add: unfold dot da)
  next
    case nn: False
    show ?thesis
    proof (cases "t > 1")
      case True
      then show ?thesis using False nn tneg tbig
        by (simp add: unfold dot sq db)
    next
      case mid: False
      have "(A - t * C) * (A - t * C) + (B - t * D) * (B - t * D) = (C * B - D * A)\<^sup>2 / L"
      proof -
        have "L * ((A - t * C) * (A - t * C) + (B - t * D) * (B - t * D)) = (C * B - D * A)\<^sup>2"
        proof -
          have tl: "t * L = A * C + B * D" using L by (simp add: t_def)
          have "L * ((A - t * C) * (A - t * C) + (B - t * D) * (B - t * D))
              = L * (A * A + B * B) - 2 * (t * L) * (A * C + B * D) + (t * L) * (t * L)"
            by (simp add: L_def algebra_simps)
          also have "\<dots> = L * (A * A + B * B) - (A * C + B * D) * (A * C + B * D)"
            by (simp add: tl)
          also have "\<dots> = (C * B - D * A)\<^sup>2"
            by (simp add: L_def power2_eq_square algebra_simps)
          finally show ?thesis .
        qed
        then show ?thesis using L by (simp add: field_simps)
      qed
      note key = this
      have ex: "px - (x1 + t * C) = A - t * C" "py - (y1 + t * D) = B - t * D"
        by (simp_all add: A_def B_def)
      have "pointToLineDistance p a b =
          sqrt ((px - (x1 + t * C)) * (px - (x1 + t * C)) + (py - (y1 + t * D)) * (py - (y1 + t * D)))"
        using nn mid by (simp add: unfold)
      also have "\<dots> = sqrt ((C * B - D * A)\<^sup>2 / L)"
        by (simp only: ex key)
      also have "\<dots> = \<bar>C * B - D * A\<bar> / sqrt L"
        by (simp add: real_sqrt_divide)
      finally show ?thesis using False nn mid tneg tbig by (simp add: dot sq cr)
    qed
  qed
qed

lemma pointDistance_self: "pointDistance p p = 0"
  by (simp add: pointDistance_def)

lemma onSegment_distance: "onSegment a b p \<Longrightarrow> pointToLineDistance p a b = 0"
  by (cases "a = b") (auto simp: onSegment_def pointToLineDistance_cases pointDistance_self)

lemma straightPath_nth: "i < 501 \<Longrightarrow> straightPath ! i = (real i, 0)"
  by (simp add: straightPath_def)

text \<open>
  C8 (amended).  The perimeter extractor simplifies the stitched path with Douglas-Peucker
  only when it has more than 500 points, with tolerance 1.  The deviation of a point is its
  distance to the segment: to the first end when the segment is a point or the projection
  falls before it, to the second end when the projection falls beyond it, and the
  perpendicular distance to the line otherwise.  A path of more than two points (501 in
  particular) whose inner points all lie on the segment from its first to its last point is
  reduced to these two points.
\<close>

theorem douglasPeucker_segment:
  "detectColorPerimeter canvas =
     (case stitchedPath canvas of
        None \<Rightarrow> None
      | Some path \<Rightarrow> if length path > 500 then douglasPeucker path 1 else Some path)
   \<and> pointToLineDistance p a b =
       (if a = b \<or> dotProduct a b p < 0 then pointDistance p a
        else if dotProduct a b p > squaredLength a b then pointDistance p b
        else \<bar>crossProduct a b p\<bar> / sqrt (squaredLength a b))
   \<and> (2 < length pts \<and>
        list_all (onSegment (pts ! 0) (pts ! (length pts - 1))) (take (length pts - 2) (drop 1 pts))
        \<longrightarrow> douglasPeucker pts 1 = Some [pts ! 0, pts ! (length pts - 1)])"
proof (intro conjI impI)
  show "detectColorPerimeter canvas =
     (case stitchedPath canvas of
        None \<Rightarrow> None
      | Some path \<Rightarrow> if length path > 500 then douglasPeucker path 1 else Some path)"
    by (simp add: detectColorPerimeter_def)
  show "pointToLineDistance p a b =
       (if a = b \<or> dotProduct a b p < 0 then pointDistance p a
        else if dotProduct a b p > squaredLength a b then pointDistance p b
        else \<bar>crossProduct a b p\<bar> / sqrt (squaredLength a b))"
    by (rule pointToLineDistance_cases)
  assume h: "2 < length pts \<and>
        list_all (onSegment (pts ! 0) (pts ! (length pts - 1))) (take (length pts - 2) (drop 1 pts))"
  then have "\<forall>q \<in> set (take (length pts - 1 - 1) (drop 1 pts)).
      pointToLineDistance q (pts ! 0) (pts ! (length pts - 1)) \<le> 0"
    by (auto simp: list_all_iff onSegment_distance numeral_2_eq_2)
  with h show "douglasPeucker pts 1 = Some [pts ! 0, pts ! (length pts - 1)]"
    by (intro douglasPeucker_flat) simp_all
qed

theorem douglasPeucker_segment_witness:
  "length straightPath = 501 \<and> straightPath ! 0 = (0, 0) \<and> straightPath ! 500 = (500, 0)
   \<and> douglasPeucker straightPath 1 = Some [(0, 0), (500, 0)]"
proof -
  have l: "length straightPath = 501" by (simp add: straightPath_def)
  have f: "straightPath ! 0 = (0, 0)" and e: "straightPath ! 500 = (500, 0)"
    using straightPath_nth[of 0] straightPath_nth[of 500] by simp_all
  have "onSegment (0, 0) (500, 0) q" if "q \<in> set (take 499 (drop 1 straightPath))" for q
  proof -
    from that obtain i where i: "i < 499" "q = straightPath ! (1 + i)"
      by (auto simp: in_set_conv_nth l)
    then have q: "q = (real (1 + i), 0)" using straightPath_nth[of "1 + i"] by simp
    have "real (1 + i) \<le> 500" using i(1) by simp
    then have "real (1 + i) * 500 \<le> 500 * 500" by (rule mult_right_mono) simp
    then show ?thesis
      by (simp add: q onSegment_def crossProduct_def dotProduct_def squaredLength_def)
  qed
  then have "list_all (onSegment (straightPath ! 0) (straightPath ! (length straightPath - 1)))
      (take (length straightPath - 2) (drop 1 straightPath))"
    by (simp add: list_all_iff l f e)
  with douglasPeucker_segment [of _ _ _ _ straightPath] l f e show ?thesis by simp
qed

lemma backtrackPath_length: "length backtrackPath = 501"
  by (simp add: backtrackPath_def)

lemma backtrackPath_ends: "backtrackPath ! 0 = (0, 0)" "backtrackPath ! 500 = (1, 0)"
proof -
  show "backtrackPath ! 0 = (0, 0)" by (simp add: backtrackPath_def)
  have "(map (\<lambda>i. (real i, 0)) [2..<501] @ [(1, 0)]) ! 499 = (1, 0)"
    by (simp add: nth_append)
  then show "backtrackPath ! 500 = (1, 0)" by (simp add: backtrackPath_def)
qed

lemma backtrackPath_collinear: "collinearPath backtrackPath"
proof -
  have "snd q = 0" if "q \<in> set backtrackPath" for q
    using that by (auto simp: backtrackPath_def)
  then show ?thesis by (simp add: collinearPath_def list_all_iff crossProduct_def)
qed

lemma backtrackPath_deviation: "pointToLineDistance (500, 0) (0, 0) (1, 0) = 499"
  by (simp add: pointToLineDistance_cases dotProduct_def squaredLength_def pointDistance_def)

text \<open>
  C8 as stated fails: the 501 points of \<open>backtrackPath\<close> are collinear, but the point
  \<open>(500, 0)\<close> is 499 away from the segment from \<open>(0, 0)\<close> to \<open>(1, 0)\<close>, so the path is split
  and the result has more than two points.
\<close>

theorem douglasPeucker_backtrack:
  "length backtrackPath = 501 \<and> collinearPath backtrackPath
   \<and> douglasPeucker backtrackPath 1 \<noteq> Some [backtrackPath ! 0, backtrackPath ! 500]"
proof -
  let ?inner = "take (length backtrackPath - 1 - 1) (drop 1 backtrackPath)"
  have inner: "?inner = map (\<lambda>i. (real i, 0)) [2..<501]"
    by (simp add: backtrackPath_def)
  have "(real 500, 0) \<in> set ?inner" unfolding inner by (simp del: of_nat_numeral)
  then have m: "(500, 0) \<in> set ?inner" by simp
  have "pointToLineDistance (500, 0) (backtrackPath ! 0) (backtrackPath ! (length backtrackPath - 1))
      \<le> fst (maxDeviation ?inner (backtrackPath ! 0) (backtrackPath ! (length backtrackPath - 1)) 1 (0, 0))"
    using maxDeviation_ge m by blast
  then have "1 < fst (maxDeviation ?inner (backtrackPath ! 0) (backtrackPath ! (length backtrackPath - 1)) 1 (0, 0))"
    by (simp add: backtrackPath_length backtrackPath_ends backtrackPath_deviation)
  from douglasPeucker_split_length[OF _ _ this] obtain r where
    "douglasPeucker backtrackPath 1 = Some r" "3 \<le> length r"
    by (auto simp: backtrackPath_length)
  then have "douglasPeucker backtrackPath 1 \<noteq> Some [backtrackPath ! 0, backtrackPath ! 500]"
    by auto
  with backtrackPath_length backtrackPath_collinear show ?thesis by simp
qed

lemma thinPoints_extends: "\<exists>s. thinPoints t ps acc = acc @ s"
proof (induction ps arbitrary: acc)
  case Nil
  show ?case by simp
next
  case (Cons p ps)
  show ?case
  proof (cases "list_ex (\<lambda>s. pointDistance p s < t) acc")
    case True
    with Cons.IH[of acc] show ?thesis by simp
  next
    case False
    from Cons.IH[of "acc @ [p]"] obtain s where "thinPoints t ps (acc @ [p]) = (acc @ [p]) @ s" by blast
    with False show ?thesis by simp
  qed
qed

lemma thinPoints_nonempty: "ps \<noteq> [] \<Longrightarrow> thinPoints t ps [] \<noteq> []"
proof -
  assume "ps \<noteq> []"
  then obtain p rest where ps: "ps = p # rest" by (cases ps) auto
  from thinPoints_extends[of t rest "[p]"] obtain s where "thinPoints t rest [p] = [p] @ s" by blast
  then show ?thesis by (simp add: ps)
qed

lemma findNearest_index:
  "fst (findNearest c ps i (k, d)) = k \<or>
   (i \<le> fst (findNearest c ps i (k, d)) \<and> fst (findNearest c ps i (k, d)) < i + length ps)"
proof (induction ps arbitrary: i k d)
  case Nil
  show ?case by simp
next
  case (Cons p ps)
  show ?case
  proof (cases "case d of None \<Rightarrow> True | Some d' \<Rightarrow> pointDistance c p < d'")
    case True
    from Cons.IH[of "Suc i" i "Some (pointDistance c p)"] True show ?thesis
      by (auto simp: Let_def)
  next
    case False
    from Cons.IH[of "Suc i" k d] False show ?thesis
      by (auto simp: Let_def)
  qed
qed

lemma findNearest_in_range:
  "ps \<noteq> [] \<Longrightarrow> fst (findNearest c ps 0 (0, None)) < length ps"
  using findNearest_index[of c ps 0 0 None] by auto

lemma stitchPath_total:
  "\<exists>s. stitchPath c r p = Some (p @ s)"
proof (induction "length r" arbitrary: c r p rule: less_induct)
  case less
  show ?case
  proof (cases "r = []")
    case True
    then show ?thesis by (subst stitchPath.simps) simp
  next
    case False
    define nearest where "nearest = findNearest c r 0 (0, None)"
    have idx: "fst nearest < length r"
      using findNearest_in_range[OF False] by (simp add: nearest_def)
    show ?thesis
    proof (cases "(case snd nearest of None \<Rightarrow> True | Some d \<Rightarrow> d > 50) \<and> length p > 10")
      case True
      have "length (tl r) < length r" using False by (cases r) simp_all
      from less[OF this, of "hd r" "p @ [hd r]"] obtain s where
        "stitchPath (hd r) (tl r) (p @ [hd r]) = Some ((p @ [hd r]) @ s)" by blast
      moreover have "stitchPath c r p = stitchPath (hd r) (tl r) (p @ [hd r])"
        using False True by (subst stitchPath.simps) (simp add: Let_def nearest_def)
      ultimately show ?thesis by simp
    next
      case far: False
      have "length (take (fst nearest) r @ drop (Suc (fst nearest)) r) < length r"
        using idx by simp
      from less[OF this, of "r ! fst nearest" "p @ [r ! fst nearest]"] obtain s where
        "stitchPath (r ! fst nearest) (take (fst nearest) r @ drop (Suc (fst nearest)) r)
           (p @ [r ! fst nearest]) = Some ((p @ [r ! fst nearest]) @ s)" by blast
      moreover have "stitchPath c r p =
          stitchPath (r ! fst nearest) (take (fst nearest) r @ drop (Suc (fst nearest)) r)
           (p @ [r ! fst nearest])"
        using False far idx by (subst stitchPath.simps) (auto simp: Let_def nearest_def)
      ultimately show ?thesis by simp
    qed
  qed
qed

lemma edgePixels_nonempty:
  assumes "x < width im" and "y < height im" and "isEdgePixel im y x"
  shows "edgePixels im \<noteq> []"
proof -
  have "(real x, real y) \<in> set (edgePixels im)"
    using assms by (auto simp: edgePixels_def)
  then show ?thesis by auto
qed

lemma stitchedPath_nonempty:
  assumes "edgePixels im \<noteq> []"
  shows "\<exists>path. stitchedPath (Some im) = Some path \<and> path \<noteq> []"
proof -
  define simplified where "simplified = thinPoints 2 (edgePixels im) []"
  have ne: "simplified \<noteq> []" using assms by (simp add: simplified_def thinPoints_nonempty)
  from stitchPath_total[of "hd simplified" "tl simplified" "[hd simplified]"] obtain s where
    "stitchPath (hd simplified) (tl simplified) [hd simplified] = Some ([hd simplified] @ s)" by blast
  then show ?thesis using assms ne by (simp add: stitchedPath_def Let_def simplified_def)
qed

lemma detectColorPerimeter_nonempty:
  assumes "edgePixels im \<noteq> []"
  shows "\<exists>path. detectColorPerimeter (Some im) = Some path \<and> path \<noteq> []"
proof -
  from stitchedPath_nonempty[OF assms] obtain path where
    p: "stitchedPath (Some im) = Some path" "path \<noteq> []" by blast
  show ?thesis
  proof (cases "length path > 500")
    case True
    from douglasPeucker_total[of 1 path] p(2) obtain r where
      "douglasPeucker path 1 = Some r" "r \<noteq> []" by auto
    with True p(1) show ?thesis by (simp add: detectColorPerimeter_def)
  next
    case False
    with p show ?thesis by (simp add: detectColorPerimeter_def)
  qed
qed

lemma drawZoneBorder_ring:
  assumes "mapReady e" and "perimeter z = Some perim" and "perim \<noteq> []"
  shows "\<exists>ring. fst (drawZoneBorder e m z) = Some ring \<and> ring \<noteq> [] \<and> hd ring = last ring
             \<and> (ring = perim \<or> ring = perim @ [hd perim])
             \<and> borders (snd (drawZoneBorder e m z)) (zone_id z) = Some ring"
proof (cases "fst (perim ! 0) \<noteq> fst (perim ! (length perim - 1)) \<or>
              snd (perim ! 0) \<noteq> snd (perim ! (length perim - 1))")
  case True
  have "perim ! 0 = hd perim" using assms(3) by (simp add: hd_conv_nth)
  then show ?thesis using assms True
    by (auto simp: drawZoneBorder_def Let_def)
next
  case False
  then have "perim ! 0 = perim ! (length perim - 1)" by (simp add: prod_eq_iff)
  then have "hd perim = last perim" using assms(3) by (simp add: hd_conv_nth last_conv_nth)
  then show ?thesis using assms False
    by (auto simp: drawZoneBorder_def Let_def)
qed

lemma rowRaster_perimeter: "detectColorPerimeter (Some rowRaster) = Some [(0, 0), (2, 0)]"
proof -
  have e: "isEdgePixel rowRaster 0 0" "isEdgePixel rowRaster 0 1" "isEdgePixel rowRaster 0 2"
    by (simp_all add: isEdgePixel_def isColored_def alphaAt_def rowRaster_def)
  have "[0..<3] = [0, 1, 2]" by (simp add: upt_rec)
  then have ep: "edgePixels rowRaster = [(0, 0), (1, 0), (2, 0)]"
    using e by (simp add: edgePixels_def rowRaster_def)
  have th: "thinPoints 2 [(0, 0), (1, 0), (2, 0)] [] = [(0, 0), (2, 0)]"
    by (simp add: pointDistance_def)
  have s2: "stitchPath (2, 0) [] [(0, 0), (2, 0)] = Some [(0, 0), (2, 0)]"
    by (subst stitchPath.simps) simp
  have st: "stitchPath (0, 0) [(2, 0)] [(0, 0)] = Some [(0, 0), (2, 0)]"
    by (subst stitchPath.simps) (simp add: Let_def pointDistance_def s2)
  have th': "thinPoints 2 (edgePixels rowRaster) [] = [(0, 0), (2, 0)]"
    by (simp only: ep th)
  have ne: "edgePixels rowRaster \<noteq> []" by (simp add: ep)
  have sp: "stitchedPath (Some rowRaster) = Some [(0, 0), (2, 0)]"
    by (simp add: stitchedPath_def th' ne st Let_def)
  show ?thesis
    by (simp add: detectColorPerimeter_def sp)
qed

lemma rowZone_ring:
  "fst (drawZoneBorder demoEnv demoManager rowZone) = Some [(1, 0), (1, 2 / 3), (1, 0)]"
  by (simp add: drawZoneBorder_def rowZone_def pixelsToLatLng_def pixelToLatLng_def demoEnv_def
      Let_def)

text \<open>
  C7 (amended).  For every readable raster with an edge pixel, \<^verbatim>\<open>detectColorPerimeter\<close>
  returns a path that is not empty, and so is its conversion to geographic coordinates.  When
  that polygon is the perimeter of a zone, the ring that \<^verbatim>\<open>drawZoneBorder\<close> builds is
  closed: its first vertex equals its last, the first vertex being appended when it differs
  from the last.  Nothing is said on the number of distinct vertices.
\<close>

theorem perimeter_ring_closed:
  assumes "x < width im" and "y < height im" and "isEdgePixel im y x"
  shows "\<exists>path. detectColorPerimeter (Some im) = Some path \<and> path \<noteq> []
     \<and> pixelsToLatLng path W H bnds \<noteq> []
     \<and> (mapReady e \<and> perimeter z = Some (pixelsToLatLng path W H bnds) \<longrightarrow>
          (\<exists>ring. fst (drawZoneBorder e m z) = Some ring \<and> ring \<noteq> [] \<and> hd ring = last ring
             \<and> (ring = pixelsToLatLng path W H bnds
                 \<or> ring = pixelsToLatLng path W H bnds @ [hd (pixelsToLatLng path W H bnds)])))"
proof -
  from detectColorPerimeter_nonempty[OF edgePixels_nonempty[OF assms]] obtain path where
    p: "detectColorPerimeter (Some im) = Some path" "path \<noteq> []" by blast
  have g: "pixelsToLatLng path W H bnds \<noteq> []" using p(2) by (simp add: pixelsToLatLng_def)
  have "mapReady e \<and> perimeter z = Some (pixelsToLatLng path W H bnds) \<longrightarrow>
          (\<exists>ring. fst (drawZoneBorder e m z) = Some ring \<and> ring \<noteq> [] \<and> hd ring = last ring
             \<and> (ring = pixelsToLatLng path W H bnds
                 \<or> ring = pixelsToLatLng path W H bnds @ [hd (pixelsToLatLng path W H bnds)]))"
    using drawZoneBorder_ring[of e z "pixelsToLatLng path W H bnds" m] g by blast
  with p g show ?thesis by blast
qed

theorem perimeter_ring_closed_witness:
  "isEdgePixel cornerRaster 0 1
   \<and> (\<exists>path. detectColorPerimeter (Some cornerRaster) = Some path \<and> path \<noteq> []
         \<and> pixelsToLatLng path 2 2 ((0, 0), (1, 1)) \<noteq> [])
   \<and> isEdgePixel rowRaster 0 0 \<and> mapReady demoEnv
   \<and> detectColorPerimeter (Some rowRaster) = Some [(0, 0), (2, 0)]
   \<and> perimeter rowZone = Some (pixelsToLatLng [(0, 0), (2, 0)] 3 1 ((0, 0), (1, 1)))
   \<and> (\<exists>ring. fst (drawZoneBorder demoEnv demoManager rowZone) = Some ring \<and> ring \<noteq> []
         \<and> hd ring = last ring
         \<and> ring = pixelsToLatLng [(0, 0), (2, 0)] 3 1 ((0, 0), (1, 1))
                    @ [hd (pixelsToLatLng [(0, 0), (2, 0)] 3 1 ((0, 0), (1, 1)))])
   \<and> fst (drawZoneBorder demoEnv demoManager rowZone) = Some [(1, 0), (1, 2 / 3), (1, 0)]"
proof -
  have w: "1 < width cornerRaster" and h: "0 < height cornerRaster"
    by (simp_all add: cornerRaster_def)
  have e: "isEdgePixel cornerRaster 0 1"
    by (simp add: isEdgePixel_def isColored_def alphaAt_def cornerRaster_def)
  from perimeter_ring_closed [OF w h e, of 2 2 "((0, 0), (1, 1))" demoEnv onePixelZone demoManager]
  have 1: "\<exists>path. detectColorPerimeter (Some cornerRaster) = Some path \<and> path \<noteq> []
         \<and> pixelsToLatLng path 2 2 ((0, 0), (1, 1)) \<noteq> []" by blast
  have w': "0 < width rowRaster" and h': "0 < height rowRaster"
    by (simp_all add: rowRaster_def)
  have e': "isEdgePixel rowRaster 0 0"
    by (simp add: isEdgePixel_def isColored_def alphaAt_def rowRaster_def)
  have r: "mapReady demoEnv" by (simp add: demoEnv_def)
  have d: "detectColorPerimeter (Some rowRaster) = Some [(0, 0), (2, 0)]"
    by (rule rowRaster_perimeter)
  have p: "perimeter rowZone = Some (pixelsToLatLng [(0, 0), (2, 0)] 3 1 ((0, 0), (1, 1)))"
    by (simp add: rowZone_def)
  have g: "fst (drawZoneBorder demoEnv demoManager rowZone) = Some [(1, 0), (1, 2 / 3), (1, 0)]"
    by (rule rowZone_ring)
  have v: "pixelsToLatLng [(0, 0), (2, 0)] 3 1 ((0, 0), (1, 1)) = [(1, 0), (1, 2 / 3)]"
    by (simp add: pixelsToLatLng_def pixelToLatLng_def)
  from perimeter_ring_closed [OF w' h' e', of 3 1 "((0, 0), (1, 1))" demoEnv rowZone demoManager]
    d r p
  have "\<exists>ring. fst (drawZoneBorder demoEnv demoManager rowZone) = Some ring \<and> ring \<noteq> []
         \<and> hd ring = last ring
         \<and> (ring = pixelsToLatLng [(0, 0), (2, 0)] 3 1 ((0, 0), (1, 1))
             \<or> ring = pixelsToLatLng [(0, 0), (2, 0)] 3 1 ((0, 0), (1, 1))
                    @ [hd (pixelsToLatLng [(0, 0), (2, 0)] 3 1 ((0, 0), (1, 1)))])"
    by simp
  then have 2: "\<exists>ring. fst (drawZoneBorder demoEnv demoManager rowZone) = Some ring \<and> ring \<noteq> []
         \<and> hd ring = last ring
         \<and> ring = pixelsToLatLng [(0, 0), (2, 0)] 3 1 ((0, 0), (1, 1))
                    @ [hd (pixelsToLatLng [(0, 0), (2, 0)] 3 1 ((0, 0), (1, 1)))]"
    using g by (auto simp: v)
  from e 1 e' r d p 2 g show ?thesis by blast
qed

text \<open>
  C7 as stated fails: the raster of one opaque pixel has an edge pixel, its perimeter is the
  single point \<open>(0, 0)\<close>, and the ring drawn for it has one vertex, not three distinct ones.
\<close>

theorem perimeter_single_vertex:
  "isEdgePixel onePixel 0 0
   \<and> detectColorPerimeter (Some onePixel) = Some [(0, 0)]
   \<and> perimeter onePixelZone = Some (pixelsToLatLng [(0, 0)] 1 1 ((0, 0), (1, 1)))
   \<and> fst (drawZoneBorder demoEnv demoManager onePixelZone) = Some [(1, 0)]
   \<and> hd [(1 :: real, 0 :: real)] = last [(1, 0)]
   \<and> \<not> 3 \<le> card (set [(1 :: real, 0 :: real)])"
proof -
  have c: "isColored onePixel 0 0"
    by (simp add: isColored_def alphaAt_def onePixel_def)
  have e: "isEdgePixel onePixel 0 0"
    using c by (simp add: isEdgePixel_def)
  have ep: "edgePixels onePixel = [(0, 0)]"
    using e by (simp add: edgePixels_def onePixel_def)
  have st: "stitchPath (0, 0) [] [(0, 0)] = Some [(0, 0)]"
    by (subst stitchPath.simps) simp
  have d: "detectColorPerimeter (Some onePixel) = Some [(0, 0)]"
    by (simp add: detectColorPerimeter_def stitchedPath_def ep st)
  have p: "perimeter onePixelZone = Some (pixelsToLatLng [(0, 0)] 1 1 ((0, 0), (1, 1)))"
    by (simp add: onePixelZone_def)
  have g: "pixelsToLatLng [(0, 0)] 1 1 ((0, 0), (1, 1)) = [(1, 0)]"
    by (simp add: pixelsToLatLng_def pixelToLatLng_def)
  have r: "fst (drawZoneBorder demoEnv demoManager onePixelZone) = Some [(1, 0)]"
    by (simp add: drawZoneBorder_def p g demoEnv_def Let_def)
  from e d p r show ?thesis by simp
qed

end
